theory Spec2Isabelle
  imports Complex_Main
begin

section \<open>Errors and sequencing\<close>

text \<open>
  The exceptions that \<^verbatim>\<open>Faster_RCNN/utils/transform.py\<close> can raise, as values.
  Python's \<^verbatim>\<open>ValueError\<close> occurs twice: raised by a failed tuple unpacking
  (\<open>ValueError_unpack\<close>) and raised explicitly by \<^verbatim>\<open>forward\<close> with a message
  that contains the shape of the offending image (\<open>ValueError_not_3d\<close>, which carries
  that shape).

  The entries of a tensor are idealised as exact rationals. A division of a float tensor
  by zero does not raise in the tensor library but produces \<^verbatim>\<open>inf\<close> or \<^verbatim>\<open>nan\<close>
  entries, which lie outside the rationals: \<^verbatim>\<open>resize_boxes\<close> reports such a result
  as \<open>NonFinite\<close>. The scalars computed by \<^verbatim>\<open>resize\<close> decide the shape of its
  result; they are Python floats and are modelled as such, with their rounding.
\<close>

datatype error =
    IndexError
  | KeyError
  | ZeroDivisionError
  | ValueError_unpack
  | ValueError_not_3d "nat list"
  | RuntimeError
  | NotImplementedError
  | AssertionError
  | OverflowError
  | NonFinite

fun ebind :: "error + 'a \<Rightarrow> ('a \<Rightarrow> error + 'b) \<Rightarrow> error + 'b" where
  "ebind (Inl e) f = Inl e"
| "ebind (Inr x) f = f x"

text \<open>A \<^verbatim>\<open>for\<close> loop over a list that updates a state and stops at the first exception.\<close>

fun efold :: "('a \<Rightarrow> 's \<Rightarrow> error + 's) \<Rightarrow> 'a list \<Rightarrow> 's \<Rightarrow> error + 's" where
  "efold f [] s = Inr s"
| "efold f (x # xs) s = ebind (f x s) (efold f xs)"

text \<open>A list comprehension whose element expression may raise.\<close>

fun emap :: "('a \<Rightarrow> error + 'b) \<Rightarrow> 'a list \<Rightarrow> error + 'b list" where
  "emap f [] = Inr []"
| "emap f (x # xs) = ebind (f x) (\<lambda>y. ebind (emap f xs) (\<lambda>ys. Inr (y # ys)))"

text \<open>\<^verbatim>\<open>xs[i]\<close> on a Python list or tuple: a negative \<open>i\<close> counts from the end.\<close>

definition py_index :: "'a list \<Rightarrow> int \<Rightarrow> error + 'a" where
  "py_index xs i =
     (if 0 \<le> i \<and> i < int (length xs) then Inr (xs ! nat i)
      else if i < 0 \<and> - i \<le> int (length xs) then Inr (xs ! nat (int (length xs) + i))
      else Inl IndexError)"

text \<open>\<^verbatim>\<open>d[k]\<close> on a Python dict.\<close>

definition dict_get :: "('k \<rightharpoonup> 'v) \<Rightarrow> 'k \<Rightarrow> error + 'v" where
  "dict_get d k = (case d k of None \<Rightarrow> Inl KeyError | Some v \<Rightarrow> Inr v)"

section \<open>Python floats\<close>

text \<open>
  A Python float is an IEEE binary64 number. A finite one is a rational, and an arithmetic
  operation on floats returns the exact result rounded to the nearest binary64 number,
  ties going to the even significand: \<open>fl64 x\<close> is that number for the exact result
  \<open>x\<close>. The significand has 53 bits, and the unit in the last place is never below
  \<open>2 ^ (- 1074)\<close>. \<open>bit_length n\<close> is the number of binary digits of a positive
  integer, \<open>pow2 e\<close> is \<open>2 ^ e\<close> for an integer \<open>e\<close>, and \<open>float_exponent a\<close>, for
  \<open>a > 0\<close>, is the \<open>e\<close> with \<open>2 ^ e \<le> a < 2 ^ (e + 1)\<close>.

  A rounded result of magnitude \<open>2 ^ 1024\<close> or more is not a finite float. The
  conversion \<^verbatim>\<open>float(n)\<close> of an integer raises \<^verbatim>\<open>OverflowError\<close> then
  (\<open>py_float\<close>; on a float it is the identity), and a product overflows to an infinity,
  which is greater, or less, than every number it is compared with (\<open>float_gt\<close>).
\<close>

function bit_length :: "int \<Rightarrow> int" where
  "bit_length n = (if n \<le> 0 then 0 else 1 + bit_length (n div 2))"
  by auto

termination
  by (relation "measure nat") auto

declare bit_length.simps [simp del]

definition pow2 :: "int \<Rightarrow> rat" where
  "pow2 e = (if 0 \<le> e then 2 ^ nat e else 1 / 2 ^ nat (- e))"

definition round_half_even :: "rat \<Rightarrow> int" where
  "round_half_even m =
     (let f = \<lfloor>m\<rfloor>; r = m - of_int f
      in if r < 1 / 2 then f else if 1 / 2 < r then f + 1 else if even f then f else f + 1)"

definition float_exponent :: "rat \<Rightarrow> int" where
  "float_exponent a =
     (case quotient_of a of (p, q) \<Rightarrow>
        let d = bit_length p - bit_length q
        in if pow2 d \<le> a then d else d - 1)"

definition fl64 :: "rat \<Rightarrow> rat" where
  "fl64 x =
     (if x = 0 then 0
      else let a = \<bar>x\<bar>; t = max (float_exponent a - 52) (- 1074)
           in sgn x * of_int (round_half_even (a / pow2 t)) * pow2 t)"

definition py_float :: "rat \<Rightarrow> error + rat" where
  "py_float x = (let y = fl64 x in if 2 ^ 1024 \<le> \<bar>y\<bar> then Inl OverflowError else Inr y)"

definition float_gt :: "rat \<Rightarrow> rat \<Rightarrow> bool" where
  "float_gt p m = (if 2 ^ 1024 \<le> p then True else if p \<le> - (2 ^ 1024) then False else m < p)"

section \<open>Tensors\<close>

text \<open>
  A tensor is its shape and its entries in row-major order. \<open>ravel_index\<close> is the
  offset of a multi-index, \<open>unravel_index\<close> the multi-index of an offset, and
  \<open>tabulate\<close> builds the tensor of a given shape from a function of the multi-index.
\<close>

record tensor =
  shape :: "nat list"
  data :: "rat list"

definition ndim :: "tensor \<Rightarrow> nat" where
  "ndim t = length (shape t)"

definition wf_tensor :: "tensor \<Rightarrow> bool" where
  "wf_tensor t = (length (data t) = prod_list (shape t))"

fun valid_index :: "nat list \<Rightarrow> nat list \<Rightarrow> bool" where
  "valid_index [] [] = True"
| "valid_index (n # ns) (i # js) = (i < n \<and> valid_index ns js)"
| "valid_index _ _ = False"

fun ravel_index :: "nat list \<Rightarrow> nat list \<Rightarrow> nat" where
  "ravel_index (n # ns) (i # js) = i * prod_list ns + ravel_index ns js"
| "ravel_index _ _ = 0"

fun unravel_index :: "nat list \<Rightarrow> nat \<Rightarrow> nat list" where
  "unravel_index [] k = []"
| "unravel_index (n # ns) k = (k div prod_list ns) # unravel_index ns (k mod prod_list ns)"

definition tabulate :: "nat list \<Rightarrow> (nat list \<Rightarrow> rat) \<Rightarrow> tensor" where
  "tabulate shp f =
     \<lparr>shape = shp, data = map (\<lambda>k. f (unravel_index shp k)) [0..<prod_list shp]\<rparr>"

definition elem :: "tensor \<Rightarrow> nat list \<Rightarrow> rat" where
  "elem t idx = data t ! ravel_index (shape t) idx"

text \<open>\<^verbatim>\<open>t.new_full(shp, v)\<close>: a fresh tensor of shape \<open>shp\<close> filled with \<open>v\<close>.\<close>

definition new_full :: "nat list \<Rightarrow> rat \<Rightarrow> tensor" where
  "new_full shp v = tabulate shp (\<lambda>_. v)"

text \<open>
  Broadcasting, as the tensor library defines it: shapes are aligned at their last
  dimension, and a dimension of size 1 is repeated. \<open>broadcastable src dst\<close> says that a
  tensor of shape \<open>src\<close> can be expanded to shape \<open>dst\<close>; \<open>broadcast_index src idx\<close> is
  the entry of the source that lands at \<open>idx\<close>.
\<close>

definition broadcastable :: "nat list \<Rightarrow> nat list \<Rightarrow> bool" where
  "broadcastable src dst =
     (length src \<le> length dst \<and>
      list_all2 (\<lambda>s d. s = d \<or> s = 1) src (drop (length dst - length src) dst))"

definition broadcast_index :: "nat list \<Rightarrow> nat list \<Rightarrow> nat list" where
  "broadcast_index src idx =
     map2 (\<lambda>s i. if s = 1 then 0 else i) src (drop (length idx - length src) idx)"

fun broadcast_dims :: "nat list \<Rightarrow> nat list \<Rightarrow> error + nat list" where
  "broadcast_dims [] ys = Inr ys"
| "broadcast_dims (x # xs) [] = Inr (x # xs)"
| "broadcast_dims (x # xs) (y # ys) =
     (if x = y \<or> y = 1 then ebind (broadcast_dims xs ys) (\<lambda>r. Inr (x # r))
      else if x = 1 then ebind (broadcast_dims xs ys) (\<lambda>r. Inr (y # r))
      else Inl RuntimeError)"

definition broadcast_shapes :: "nat list \<Rightarrow> nat list \<Rightarrow> error + nat list" where
  "broadcast_shapes a b = ebind (broadcast_dims (rev a) (rev b)) (\<lambda>r. Inr (rev r))"

text \<open>
  Elementwise \<^verbatim>\<open>a - b\<close> and \<^verbatim>\<open>a / b\<close> of two tensors, with broadcasting. The
  division never raises: where the divisor is zero the entry of the quotient is
  \<^verbatim>\<open>inf\<close> or \<^verbatim>\<open>nan\<close>. A tensor of rationals cannot hold that entry; the model
  holds 0 in its place, and no statement below reads such an entry.
\<close>

definition tensor_sub :: "tensor \<Rightarrow> tensor \<Rightarrow> error + tensor" where
  "tensor_sub a b =
     ebind (broadcast_shapes (shape a) (shape b)) (\<lambda>shp.
       Inr (tabulate shp (\<lambda>idx. elem a (broadcast_index (shape a) idx)
                                - elem b (broadcast_index (shape b) idx))))"

definition tensor_div :: "tensor \<Rightarrow> tensor \<Rightarrow> error + tensor" where
  "tensor_div a b =
     ebind (broadcast_shapes (shape a) (shape b)) (\<lambda>shp.
       Inr (tabulate shp (\<lambda>idx. let divisor = elem b (broadcast_index (shape b) idx)
                                in if divisor = 0 then 0
                                   else elem a (broadcast_index (shape a) idx) / divisor)))"

text \<open>\<^verbatim>\<open>t * r\<close> for a tensor \<open>t\<close> and a zero-dimensional tensor \<open>r\<close>.\<close>

definition tensor_scale :: "tensor \<Rightarrow> rat \<Rightarrow> tensor" where
  "tensor_scale t r = tabulate (shape t) (\<lambda>idx. elem t idx * r)"

text \<open>
  \<^verbatim>\<open>t.unbind(1)\<close>: the slices of \<open>t\<close> along dimension 1, each without that dimension.
\<close>

definition unbind1 :: "tensor \<Rightarrow> error + tensor list" where
  "unbind1 t =
     (case shape t of
        s0 # s1 # rest \<Rightarrow>
          Inr (map (\<lambda>j. tabulate (s0 # rest)
                           (\<lambda>idx. case idx of [] \<Rightarrow> 0 | i # r \<Rightarrow> elem t (i # j # r)))
                   [0..<s1])
      | _ \<Rightarrow> Inl IndexError)"

text \<open>\<^verbatim>\<open>torch.stack(ts, dim=1)\<close> and \<^verbatim>\<open>torch.stack(ts)\<close> (along dimension 0).\<close>

definition stack1 :: "tensor list \<Rightarrow> error + tensor" where
  "stack1 ts =
     (case ts of
        [] \<Rightarrow> Inl RuntimeError
      | t # _ \<Rightarrow>
          if \<not> list_all (\<lambda>t'. shape t' = shape t) ts then Inl RuntimeError
          else (case shape t of
                  [] \<Rightarrow> Inl IndexError
                | s0 # rest \<Rightarrow>
                    Inr (tabulate (s0 # length ts # rest)
                           (\<lambda>idx. case idx of i # j # r \<Rightarrow> elem (ts ! j) (i # r) | _ \<Rightarrow> 0))))"

definition stack0 :: "tensor list \<Rightarrow> error + tensor" where
  "stack0 ts =
     (case ts of
        [] \<Rightarrow> Inl RuntimeError
      | t # _ \<Rightarrow>
          if \<not> list_all (\<lambda>t'. shape t' = shape t) ts then Inl RuntimeError
          else Inr (tabulate (length ts # shape t)
                      (\<lambda>idx. case idx of [] \<Rightarrow> 0 | i # r \<Rightarrow> elem (ts ! i) r)))"

text \<open>
  \<^verbatim>\<open>torch.nn.functional.pad(t, pad)\<close> in constant mode with value 0: \<open>pad\<close> lists
  (left, right) amounts starting from the last dimension. A negative amount crops; a
  dimension that would become negative is an error.
\<close>

fun pad_pairs :: "int list \<Rightarrow> (int \<times> int) list" where
  "pad_pairs (l # r # rest) = (l, r) # pad_pairs rest"
| "pad_pairs _ = []"

definition F_pad :: "tensor \<Rightarrow> int list \<Rightarrow> error + tensor" where
  "F_pad t pad =
     (let k = length pad div 2 in
      if odd (length pad) \<or> ndim t < k then Inl RuntimeError
      else
        let lr = replicate (ndim t - k) (0, 0) @ rev (pad_pairs pad);
            new_shape = map2 (\<lambda>s (l, r). int s + l + r) (shape t) lr
        in if list_ex (\<lambda>n. n < 0) new_shape then Inl RuntimeError
           else Inr (tabulate (map nat new_shape)
                  (\<lambda>idx. let src = map2 (\<lambda>i (l, r). int i - l) idx lr
                         in if list_all2 (\<lambda>j s. 0 \<le> j \<and> j < int s) src (shape t)
                            then elem t (map nat src) else 0)))"

text \<open>
  \<^verbatim>\<open>torch.nn.functional.interpolate(image[None], scale_factor=sf, mode='bilinear')[0]\<close>.
  The output height is the float product \<^verbatim>\<open>float(h) * sf\<close> rounded down to an
  integer, and likewise the width. The library raises \<^verbatim>\<open>RuntimeError\<close> unless both
  are positive and fit a 64-bit integer, and also when the input has no channel (it wants
  a non-empty tensor). The interpolated pixel values are the tensor library's contract;
  they are taken from the parameter \<open>sample\<close> (image, scale factor, output index).
\<close>

definition interpolate :: "(tensor \<Rightarrow> rat \<Rightarrow> nat list \<Rightarrow> rat) \<Rightarrow> tensor \<Rightarrow> rat \<Rightarrow> error + tensor" where
  "interpolate sample img scale_factor =
     (case shape img of
        [c, h, w] \<Rightarrow>
          let oh = \<lfloor>fl64 (fl64 (of_nat h) * scale_factor)\<rfloor>;
              ow = \<lfloor>fl64 (fl64 (of_nat w) * scale_factor)\<rfloor>
          in if oh \<le> 0 \<or> ow \<le> 0 \<or> 2 ^ 63 \<le> oh \<or> 2 ^ 63 \<le> ow \<or> c = 0
             then Inl RuntimeError
             else Inr (tabulate [c, nat oh, nat ow] (sample img scale_factor))
      | _ \<Rightarrow> Inl NotImplementedError)"

section \<open>GeneralizedRCNNTransform\<close>

text \<open>
  The module's state: the \<^verbatim>\<open>training\<close> flag of \<^verbatim>\<open>nn.Module\<close> and the four
  attributes set by \<^verbatim>\<open>__init__\<close>. A \<^verbatim>\<open>min_size\<close> that is not a list or tuple is
  wrapped into a one-element tuple.
\<close>

record transform =
  training :: bool
  min_size :: "int list"
  max_size :: rat
  image_mean :: "rat list"
  image_std :: "rat list"

datatype min_size_arg = Scalar int | Sequence "int list"

definition init :: "min_size_arg \<Rightarrow> rat \<Rightarrow> rat list \<Rightarrow> rat list \<Rightarrow> transform" where
  "init min_size_a max_size_a image_mean_a image_std_a =
     \<lparr>training = True,
      min_size = (case min_size_a of Scalar m \<Rightarrow> [m] | Sequence ms \<Rightarrow> ms),
      max_size = max_size_a,
      image_mean = image_mean_a,
      image_std = image_std_a\<rparr>"

type_synonym target = "string \<rightharpoonup> tensor"

text \<open>
  \<^verbatim>\<open>normalize\<close>: \<^verbatim>\<open>(image - mean[:, None, None]) / std[:, None, None]\<close>, where
  \<^verbatim>\<open>mean\<close> and \<^verbatim>\<open>std\<close> are one-dimensional tensors.
\<close>

definition normalize :: "transform \<Rightarrow> tensor \<Rightarrow> error + tensor" where
  "normalize tr img =
     (let mean = \<lparr>shape = [length (image_mean tr), 1, 1], data = image_mean tr\<rparr>;
          std = \<lparr>shape = [length (image_std tr), 1, 1], data = image_std tr\<rparr>
      in ebind (tensor_sub img mean) (\<lambda>centred. tensor_div centred std))"

text \<open>
  \<^verbatim>\<open>torch_choice\<close>: \<open>u\<close> is the sample drawn from the uniform distribution on
  \<open>[0, len(k))\<close>; \<^verbatim>\<open>int\<close> truncates it towards zero.
\<close>

definition torch_choice :: "int list \<Rightarrow> rat \<Rightarrow> error + int" where
  "torch_choice k u = (let index = (if u < 0 then \<lceil>u\<rceil> else \<lfloor>u\<rfloor>) in py_index k index)"

text \<open>
  \<^verbatim>\<open>resize_boxes\<close>. The ratios are \<^verbatim>\<open>new / original\<close> per axis, the sizes being
  (height, width); columns 0 and 2 are scaled by the width ratio, columns 1 and 3 by the
  height ratio. A zero original size makes a ratio \<^verbatim>\<open>inf\<close> or \<^verbatim>\<open>nan\<close>, and every
  entry of a non-empty result non-finite.
\<close>

definition resize_boxes :: "tensor \<Rightarrow> int list \<Rightarrow> int list \<Rightarrow> error + tensor" where
  "resize_boxes boxes original_size new_size =
     (case zip new_size original_size of
        [(s_h, s_orig_h), (s_w, s_orig_w)] \<Rightarrow>
          let ratios_height = (of_int s_h :: rat) / of_int s_orig_h;
              ratios_width = (of_int s_w :: rat) / of_int s_orig_w
          in ebind (unbind1 boxes) (\<lambda>cols.
               case cols of
                 [xmin, ymin, xmax, ymax] \<Rightarrow>
                   if (s_orig_h = 0 \<or> s_orig_w = 0) \<and> prod_list (shape boxes) \<noteq> 0
                   then Inl NonFinite
                   else stack1 [tensor_scale xmin ratios_width,
                                tensor_scale ymin ratios_height,
                                tensor_scale xmax ratios_width,
                                tensor_scale ymax ratios_height]
               | _ \<Rightarrow> Inl ValueError_unpack)
      | _ \<Rightarrow> Inl ValueError_unpack)"

text \<open>
  \<^verbatim>\<open>resize\<close>, in three parts. \<open>resize_size\<close> is the choice of the target minimum
  edge (random in training mode, \<^verbatim>\<open>self.min_size[-1]\<close> otherwise), converted to a
  float; \<open>resize_scale_factor\<close> is the scale factor for an image of height \<open>h\<close> and
  width \<open>w\<close>, computed in float arithmetic (\<open>im_min_size\<close> and \<open>im_max_size\<close> are
  the local variables \<^verbatim>\<open>min_size\<close> and \<^verbatim>\<open>max_size\<close> of the source; the division
  \<^verbatim>\<open>self.max_size / max_size\<close> converts \<^verbatim>\<open>self.max_size\<close> to a float first);
  \<open>resize\<close> interpolates the image and rescales the boxes of the target.
\<close>

definition resize_size :: "transform \<Rightarrow> rat \<Rightarrow> error + rat" where
  "resize_size tr u =
     (if training tr then ebind (torch_choice (min_size tr) u) (\<lambda>s. py_float (of_int s))
      else ebind (py_index (min_size tr) (- 1)) (\<lambda>s. py_float (of_int s)))"

definition resize_scale_factor :: "transform \<Rightarrow> rat \<Rightarrow> nat \<Rightarrow> nat \<Rightarrow> error + rat" where
  "resize_scale_factor tr size' h w =
     (let im_min_size = fl64 (of_nat (min h w));
          im_max_size = fl64 (of_nat (max h w))
      in if im_min_size = 0 then Inl ZeroDivisionError
         else let scale_factor = fl64 (size' / im_min_size)
              in if float_gt (fl64 (im_max_size * scale_factor)) (max_size tr)
                 then ebind (py_float (max_size tr)) (\<lambda>m. Inr (fl64 (m / im_max_size)))
                 else Inr scale_factor)"

definition resize ::
  "transform \<Rightarrow> (tensor \<Rightarrow> rat \<Rightarrow> nat list \<Rightarrow> rat) \<Rightarrow> rat \<Rightarrow> tensor \<Rightarrow> target option
     \<Rightarrow> error + tensor \<times> target option" where
  "resize tr sample u img target =
     (if ndim img < 2 then Inl ValueError_unpack
      else
        let h = shape img ! (ndim img - 2); w = shape img ! (ndim img - 1)
        in ebind (resize_size tr u) (\<lambda>size'.
           ebind (resize_scale_factor tr size' h w) (\<lambda>scale_factor.
           ebind (interpolate sample img scale_factor) (\<lambda>img'.
             case target of
               None \<Rightarrow> Inr (img', None)
             | Some t \<Rightarrow>
                 ebind (dict_get t ''boxes'') (\<lambda>bbox.
                 ebind (resize_boxes bbox [int h, int w]
                          (map int (drop (ndim img' - 2) (shape img')))) (\<lambda>bbox.
                   Inr (img', Some (t(''boxes'' \<mapsto> bbox)))))))))"

text \<open>
  \<^verbatim>\<open>max_by_axis\<close>: \<^verbatim>\<open>maxes\<close> starts as the first sublist and is updated in place,
  index by index, with every later sublist; writing past its end raises.
\<close>

definition max_by_axis :: "nat list list \<Rightarrow> error + nat list" where
  "max_by_axis the_list =
     ebind (py_index the_list 0) (\<lambda>maxes.
       efold (\<lambda>sublist maxes.
                efold (\<lambda>(index, item) maxes.
                         if index < length maxes
                         then Inr (maxes[index := max (maxes ! index) item])
                         else Inl IndexError)
                      (enumerate 0 sublist) maxes)
             (drop 1 the_list) maxes)"

text \<open>
  \<^verbatim>\<open>max_size[k] = int(math.ceil(float(max_size[k]) / stride) * stride)\<close> with
  \<^verbatim>\<open>stride = float(size_divisible)\<close>. The entry read is never negative, so the
  product is never negative either.
\<close>

definition ceil_to_stride :: "nat list \<Rightarrow> nat \<Rightarrow> int \<Rightarrow> error + nat list" where
  "ceil_to_stride max_size' k size_divisible =
     ebind (py_index max_size' (int k)) (\<lambda>m.
       let stride = (of_int size_divisible :: rat)
       in if stride = 0 then Inl ZeroDivisionError
          else Inr (max_size'[k := nat (\<lceil>of_nat m / stride\<rceil> * size_divisible)]))"

text \<open>
  \<^verbatim>\<open>pad_img[: img.shape[0], : img.shape[1], : img.shape[2]].copy_(img)\<close>, where
  \<^verbatim>\<open>pad_img\<close> is the view \<^verbatim>\<open>batched_imgs[i]\<close>: the write goes through to
  \<^verbatim>\<open>batched_imgs\<close>. A slice bound larger than the dimension is clipped, and
  \<^verbatim>\<open>copy_\<close> needs the source to be broadcastable to the sliced region.
\<close>

definition copy_into_slot :: "tensor \<Rightarrow> nat \<Rightarrow> tensor \<Rightarrow> error + tensor" where
  "copy_into_slot batched_imgs i img =
     (case shape img of
        c # h # w # _ \<Rightarrow>
          (case tl (shape batched_imgs) of
             pc # ph # pw # rest \<Rightarrow>
               let region = min c pc # min h ph # min w pw # rest
               in if \<not> broadcastable (shape img) region then Inl RuntimeError
                  else Inr (tabulate (shape batched_imgs)
                         (\<lambda>idx. case idx of
                                  [] \<Rightarrow> 0
                                | b # r \<Rightarrow>
                                    if b = i \<and> valid_index region r
                                    then elem img (broadcast_index (shape img) r)
                                    else elem batched_imgs idx))
           | _ \<Rightarrow> Inl IndexError)
      | _ \<Rightarrow> Inl IndexError)"

text \<open>
  \<^verbatim>\<open>_onnx_batch_images\<close>, the path taken while tracing. The per-axis maxima are
  taken over all images. A stride of zero makes the quotient non-finite; its conversion
  to an integer is no valid size, and the padding that follows raises.
\<close>

definition onnx_ceil_to_stride :: "nat list \<Rightarrow> nat \<Rightarrow> int \<Rightarrow> error + nat list" where
  "onnx_ceil_to_stride max_size' k stride =
     ebind (py_index max_size' (int k)) (\<lambda>m.
       if stride = 0 then Inl RuntimeError
       else Inr (max_size'[k := nat (\<lceil>(of_nat m :: rat) / of_int stride\<rceil> * stride)]))"

definition onnx_batch_images :: "tensor list \<Rightarrow> int \<Rightarrow> error + tensor" where
  "onnx_batch_images images size_divisible =
     ebind (py_index images 0) (\<lambda>first.
     ebind (emap (\<lambda>i. ebind (emap (\<lambda>img. py_index (shape img) (int i)) images)
                         (\<lambda>sizes. Inr (Max (set sizes))))
                 [0..<ndim first]) (\<lambda>max_size'.
     ebind (onnx_ceil_to_stride max_size' 1 size_divisible) (\<lambda>max_size'.
     ebind (onnx_ceil_to_stride max_size' 2 size_divisible) (\<lambda>max_size'.
     ebind (emap (\<lambda>img.
                    let padding = map2 (\<lambda>s1 s2. int s1 - int s2) max_size' (shape img)
                    in ebind (py_index padding 2) (\<lambda>p2.
                       ebind (py_index padding 1) (\<lambda>p1.
                       ebind (py_index padding 0) (\<lambda>p0.
                         F_pad img [0, p2, 0, p1, 0, p0]))))
                 images) (\<lambda>padded_imgs.
       stack0 padded_imgs)))))"

text \<open>
  \<^verbatim>\<open>batch_images\<close>. \<open>tracing\<close> is the value of \<^verbatim>\<open>torchvision._is_tracing()\<close>.
  Iterating over \<^verbatim>\<open>batched_imgs\<close> yields its slots \<open>0, ..., len(images) - 1\<close>.
\<close>

definition batch_images :: "bool \<Rightarrow> tensor list \<Rightarrow> int \<Rightarrow> error + tensor" where
  "batch_images tracing images size_divisible =
     (if tracing then onnx_batch_images images size_divisible
      else
        ebind (max_by_axis (map shape images)) (\<lambda>max_size'.
        ebind (ceil_to_stride max_size' 1 size_divisible) (\<lambda>max_size'.
        ebind (ceil_to_stride max_size' 2 size_divisible) (\<lambda>max_size'.
          let batch_shape = length images # max_size';
              batched_imgs = new_full batch_shape 0
          in efold (\<lambda>(img, i) batched_imgs. copy_into_slot batched_imgs i img)
                   (zip images [0..<length images]) batched_imgs))))"

text \<open>
  \<^verbatim>\<open>postprocess\<close>; \<open>postprocess_step\<close> is the body of its loop. The loop runs over
  \<^verbatim>\<open>enumerate(zip(result, image_shapes, original_image_sizes))\<close>, so it stops after
  the shortest of the three lists; \<^verbatim>\<open>pred\<close> is the dict \<^verbatim>\<open>result[i]\<close>, whose
  \<^verbatim>\<open>boxes\<close> entry is replaced. The list holds values: the prediction dicts are
  taken to be distinct objects, as the detection heads produce them.
\<close>

definition postprocess_step ::
  "nat \<times> int list \<times> int list \<Rightarrow> target list \<Rightarrow> error + target list" where
  "postprocess_step =
     (\<lambda>(i, im_s, o_im_s) result.
        let pred = result ! i
        in ebind (dict_get pred ''boxes'') (\<lambda>boxes.
           ebind (resize_boxes boxes im_s o_im_s) (\<lambda>boxes.
             Inr (result[i := (result ! i)(''boxes'' \<mapsto> boxes)]))))"

definition postprocess ::
  "transform \<Rightarrow> target list \<Rightarrow> int list list \<Rightarrow> int list list \<Rightarrow> error + target list" where
  "postprocess tr result image_shapes original_image_sizes =
     (if training tr then Inr result
      else efold postprocess_step
             (zip [0..<length result] (zip image_shapes original_image_sizes)) result)"

text \<open>
  What one iteration of that loop makes of the prediction \<^verbatim>\<open>pred\<close>: its boxes are
  read, rescaled and stored back.
\<close>

definition rescale_prediction :: "target \<Rightarrow> int list \<Rightarrow> int list \<Rightarrow> error + target" where
  "rescale_prediction pred im_s o_im_s =
     ebind (dict_get pred ''boxes'') (\<lambda>boxes.
     ebind (resize_boxes boxes im_s o_im_s) (\<lambda>boxes.
       Inr (pred(''boxes'' \<mapsto> boxes))))"

text \<open>
  \<^verbatim>\<open>postprocess\<close> with the prediction dicts as objects. The list \<^verbatim>\<open>result\<close> holds
  references, a store maps every reference to the dict it denotes, and
  \<^verbatim>\<open>result[i]["boxes"] = boxes\<close> writes into the dict that \<^verbatim>\<open>result[i]\<close> refers
  to. Two entries of the list may refer to the same dict. The list itself is returned as
  it was given; the effect of the call is the store it leaves.
\<close>

type_synonym ref = nat

type_synonym store = "ref \<Rightarrow> target"

definition postprocess_inplace_step ::
  "ref list \<Rightarrow> nat \<times> int list \<times> int list \<Rightarrow> store \<Rightarrow> error + store" where
  "postprocess_inplace_step result =
     (\<lambda>(i, im_s, o_im_s) st.
        let pred = result ! i
        in ebind (dict_get (st pred) ''boxes'') (\<lambda>boxes.
           ebind (resize_boxes boxes im_s o_im_s) (\<lambda>boxes.
             Inr (st(result ! i := (st (result ! i))(''boxes'' \<mapsto> boxes))))))"

definition postprocess_inplace ::
  "transform \<Rightarrow> ref list \<Rightarrow> int list list \<Rightarrow> int list list \<Rightarrow> store \<Rightarrow> error + store" where
  "postprocess_inplace tr result image_shapes original_image_sizes st =
     (if training tr then Inr st
      else efold (postprocess_inplace_step result)
             (zip [0..<length result] (zip image_shapes original_image_sizes)) st)"

text \<open>
  Modelled from the spec: \<^verbatim>\<open>ImageList\<close> (module \<^verbatim>\<open>Faster_RCNN.utils.image_list\<close>)
  pairs the batched tensor with the per-image (height, width) before padding.
\<close>

record image_list =
  tensors :: tensor
  image_sizes :: "(nat \<times> nat) list"

text \<open>
  \<^verbatim>\<open>forward\<close>. \<open>forward_step\<close> is the body of the first loop for index \<open>i\<close>:
  \<open>target_at\<close> reads \<^verbatim>\<open>targets[i]\<close> when there are targets, \<open>forward_image\<close>
  checks the dimension of the image, normalizes and resizes it, and the results are stored
  back. \<open>draw i\<close> is the random sample used for image \<open>i\<close> in training mode.
  \<open>image_size_pair\<close> is the body of the last loop: the assertion
  \<^verbatim>\<open>len(image_size) == 2\<close> and the pair that is appended.
\<close>

definition target_at :: "target list option \<Rightarrow> nat \<Rightarrow> error + target option" where
  "target_at targets i =
     (case targets of
        None \<Rightarrow> Inr None
      | Some ts \<Rightarrow> ebind (py_index ts (int i)) (\<lambda>t. Inr (Some t)))"

definition forward_image ::
  "transform \<Rightarrow> (tensor \<Rightarrow> rat \<Rightarrow> nat list \<Rightarrow> rat) \<Rightarrow> rat \<Rightarrow> tensor \<Rightarrow> target option
     \<Rightarrow> error + tensor \<times> target option" where
  "forward_image tr sample u img target_index =
     (if ndim img \<noteq> 3 then Inl (ValueError_not_3d (shape img))
      else ebind (normalize tr img) (\<lambda>img. resize tr sample u img target_index))"

definition forward_step ::
  "transform \<Rightarrow> (tensor \<Rightarrow> rat \<Rightarrow> nat list \<Rightarrow> rat) \<Rightarrow> (nat \<Rightarrow> rat) \<Rightarrow> nat
     \<Rightarrow> tensor list \<times> target list option \<Rightarrow> error + tensor list \<times> target list option" where
  "forward_step tr sample draw i st =
     (case st of (images, targets) \<Rightarrow>
        ebind (target_at targets i) (\<lambda>target_index.
        ebind (forward_image tr sample (draw i) (images ! i) target_index)
          (\<lambda>(img, target_index).
             Inr (images[i := img],
                  (case (targets, target_index) of
                     (Some ts, Some t) \<Rightarrow> Some (ts[i := t])
                   | _ \<Rightarrow> targets)))))"

definition image_size_pair :: "nat list \<Rightarrow> error + nat \<times> nat" where
  "image_size_pair image_size =
     (if length image_size = 2 then Inr (image_size ! 0, image_size ! 1)
      else Inl AssertionError)"

definition forward ::
  "transform \<Rightarrow> bool \<Rightarrow> (tensor \<Rightarrow> rat \<Rightarrow> nat list \<Rightarrow> rat) \<Rightarrow> (nat \<Rightarrow> rat)
     \<Rightarrow> tensor list \<Rightarrow> target list option \<Rightarrow> error + image_list \<times> target list option" where
  "forward tr tracing sample draw images targets =
     ebind (efold (forward_step tr sample draw) [0..<length images] (images, targets))
       (\<lambda>(images, targets).
          let img_sizes = map (\<lambda>img. drop (ndim img - 2) (shape img)) images
          in ebind (batch_images tracing images 32) (\<lambda>batched.
             ebind (emap image_size_pair img_sizes) (\<lambda>image_sizes_list.
               Inr (\<lparr>tensors = batched, image_sizes = image_sizes_list\<rparr>, targets))))"

text \<open>
  The errors that the two explicit checks of \<^verbatim>\<open>forward\<close> raise: the
  \<^verbatim>\<open>ValueError\<close> of the dimension check and the \<^verbatim>\<open>AssertionError\<close>.
\<close>

fun explicit_check :: "error \<Rightarrow> bool" where
  "explicit_check (ValueError_not_3d s) = True"
| "explicit_check AssertionError = True"
| "explicit_check _ = False"

section \<open>The padded batch\<close>

text \<open>
  The batch as the specification describes it, for comparing the two packing paths with
  it: slot \<open>b\<close> holds image \<open>b\<close> in its top-left corner and zero elsewhere.
  \<open>filled_upto\<close> is that batch with only the first \<open>k\<close> slots filled, the state of
  the copying loop before iteration \<open>k\<close>.
\<close>

definition padded_batch :: "tensor list \<Rightarrow> nat list \<Rightarrow> tensor" where
  "padded_batch images slot_shape =
     tabulate (length images # slot_shape)
       (\<lambda>idx. case idx of
                [] \<Rightarrow> 0
              | b # r \<Rightarrow> if valid_index (shape (images ! b)) r then elem (images ! b) r else 0)"

definition filled_upto :: "tensor list \<Rightarrow> nat list \<Rightarrow> nat \<Rightarrow> tensor" where
  "filled_upto images slot_shape k =
     tabulate (length images # slot_shape)
       (\<lambda>idx. case idx of
                [] \<Rightarrow> 0
              | b # r \<Rightarrow> if b < k \<and> valid_index (shape (images ! b)) r
                         then elem (images ! b) r else 0)"

section \<open>Basic facts about sequencing and indexing\<close>

lemma ebind_Inr_iff:
  "ebind m f = Inr y \<longleftrightarrow> (\<exists>x. m = Inr x \<and> f x = Inr y)"
  by (cases m) simp_all

lemma ebind_Inl_iff:
  "ebind m f = Inl e \<longleftrightarrow> m = Inl e \<or> (\<exists>x. m = Inr x \<and> f x = Inl e)"
  by (cases m) simp_all

lemma py_index_last:
  "xs \<noteq> [] \<Longrightarrow> py_index xs (- 1) = Inr (last xs)"
proof -
  assume ne: "xs \<noteq> []"
  then have len: "1 \<le> int (length xs)" by (cases xs) simp_all
  have "nat (int (length xs) + - 1) = length xs - 1" by simp
  with ne len show ?thesis by (simp add: py_index_def last_conv_nth)
qed

lemma py_index_nat:
  "i < length xs \<Longrightarrow> py_index xs (int i) = Inr (xs ! i)"
  by (simp add: py_index_def)

lemma py_index_Nil [simp]: "py_index [] i = Inl IndexError"
  by (simp add: py_index_def)

section \<open>Row-major indexing\<close>

lemma ravel_index_less:
  "valid_index shp idx \<Longrightarrow> ravel_index shp idx < prod_list shp"
proof (induction shp idx rule: valid_index.induct)
  case (2 n ns i js)
  then have i: "i < n" and r: "ravel_index ns js < prod_list ns" by simp_all
  have "i * prod_list ns + ravel_index ns js < i * prod_list ns + prod_list ns"
    using r by simp
  also have "\<dots> = Suc i * prod_list ns" by simp
  also have "\<dots> \<le> n * prod_list ns"
    using i by (intro mult_le_mono1) simp
  finally show ?case by simp
qed simp_all

lemma unravel_ravel:
  "valid_index shp idx \<Longrightarrow> unravel_index shp (ravel_index shp idx) = idx"
proof (induction shp idx rule: valid_index.induct)
  case (2 n ns i js)
  then have r: "ravel_index ns js < prod_list ns" by (simp add: ravel_index_less)
  with 2 show ?case by simp
qed simp_all

lemma valid_unravel:
  "k < prod_list shp \<Longrightarrow> valid_index shp (unravel_index shp k)"
proof (induction shp arbitrary: k)
  case (Cons n ns)
  then have pos: "0 < prod_list ns" by (cases "prod_list ns") auto
  have "k div prod_list ns < n"
    using Cons.prems pos by (simp add: less_mult_imp_div_less mult.commute)
  moreover have "k mod prod_list ns < prod_list ns" using pos by simp
  ultimately show ?case using Cons.IH by simp
qed simp

lemma ravel_unravel:
  "k < prod_list shp \<Longrightarrow> ravel_index shp (unravel_index shp k) = k"
proof (induction shp arbitrary: k)
  case (Cons n ns)
  then have pos: "0 < prod_list ns" by (cases "prod_list ns") auto
  then have "ravel_index ns (unravel_index ns (k mod prod_list ns)) = k mod prod_list ns"
    by (intro Cons.IH) simp
  then show ?case by simp
qed simp

lemma shape_tabulate [simp]: "shape (tabulate shp f) = shp"
  by (simp add: tabulate_def)

lemma wf_tabulate [simp]: "wf_tensor (tabulate shp f)"
  by (simp add: tabulate_def wf_tensor_def)

lemma elem_tabulate:
  "valid_index shp idx \<Longrightarrow> elem (tabulate shp f) idx = f idx"
  by (simp add: elem_def tabulate_def ravel_index_less unravel_ravel)

lemma tabulate_cong:
  "(\<And>idx. valid_index shp idx \<Longrightarrow> f idx = g idx) \<Longrightarrow> tabulate shp f = tabulate shp g"
  by (simp add: tabulate_def valid_unravel)

lemma tabulate_elem:
  "wf_tensor t \<Longrightarrow> tabulate (shape t) (elem t) = t"
proof -
  assume wf: "wf_tensor t"
  have "map (\<lambda>k. data t ! ravel_index (shape t) (unravel_index (shape t) k)) [0..<prod_list (shape t)]
        = map (\<lambda>k. data t ! k) [0..<prod_list (shape t)]"
    by (rule map_cong) (simp_all add: ravel_unravel)
  also have "\<dots> = data t"
    using wf map_nth [of "data t"] by (simp add: wf_tensor_def)
  finally show ?thesis
    by (simp add: tabulate_def elem_def)
qed

section \<open>Python floats: integers\<close>

text \<open>
  The conversion of a positive integer to a float is positive, and it is exact up to
  \<open>2 ^ 53\<close>.
\<close>

lemma bit_length_pos: "0 < n \<Longrightarrow> 1 \<le> bit_length n"
proof (induction n rule: bit_length.induct)
  case (1 n)
  have "0 \<le> bit_length (n div 2)"
  proof (cases "n div 2 \<le> 0")
    case True then show ?thesis by (simp add: bit_length.simps)
  next
    case False
    then have "1 \<le> bit_length (n div 2)" using 1 by simp
    then show ?thesis by simp
  qed
  with 1(2) show ?case by (subst bit_length.simps) simp
qed

lemma bit_length_bounds:
  "0 < n \<Longrightarrow> 2 ^ nat (bit_length n - 1) \<le> n \<and> n < 2 ^ nat (bit_length n)"
proof (induction n rule: bit_length.induct)
  case (1 n)
  show ?case
  proof (cases "n div 2 \<le> 0")
    case True
    with 1(2) have n: "n = 1" by linarith
    have "bit_length 1 = 1" by (simp add: bit_length.simps)
    with n show ?thesis by simp
  next
    case False
    then have pos: "0 < n div 2" by simp
    with 1 have IH: "2 ^ nat (bit_length (n div 2) - 1) \<le> n div 2"
                    "n div 2 < 2 ^ nat (bit_length (n div 2))" by simp_all
    have b1: "1 \<le> bit_length (n div 2)" using pos by (rule bit_length_pos)
    have bl: "bit_length n = 1 + bit_length (n div 2)"
      using 1(2) by (subst bit_length.simps) simp
    have e1: "nat (bit_length n - 1) = Suc (nat (bit_length (n div 2) - 1))"
      using b1 bl by simp
    have e2: "nat (bit_length n) = Suc (nat (bit_length (n div 2)))"
      using b1 bl by simp
    have "2 * 2 ^ nat (bit_length (n div 2) - 1) \<le> 2 * (n div 2)" using IH(1) by simp
    also have "\<dots> \<le> n" by simp
    finally have lo: "2 ^ nat (bit_length n - 1) \<le> n" unfolding e1 by simp
    have "n div 2 + 1 \<le> 2 ^ nat (bit_length (n div 2))" using IH(2) by simp
    then have "2 * (n div 2) + 2 \<le> 2 * 2 ^ nat (bit_length (n div 2))" by simp
    moreover have "n < 2 * (n div 2) + 2" by linarith
    ultimately have hi: "n < 2 ^ nat (bit_length n)" unfolding e2 by simp
    from lo hi show ?thesis by simp
  qed
qed

lemma bit_length_1: "bit_length 1 = 1"
  by (simp add: bit_length.simps)

lemma float_exponent_of_int:
  assumes "0 < k"
  shows "float_exponent (of_int k) = bit_length k - 1"
proof -
  have q: "quotient_of (of_int k) = (k, 1)" by simp
  have b1: "1 \<le> bit_length k" using assms by (rule bit_length_pos)
  have "(2::int) ^ nat (bit_length k - 1) \<le> k" using bit_length_bounds [OF assms] by simp
  then have "(of_int ((2::int) ^ nat (bit_length k - 1)) :: rat) \<le> of_int k"
    by (simp only: of_int_le_iff)
  then have "pow2 (bit_length k - 1) \<le> of_int k"
    using b1 by (simp add: pow2_def)
  then show ?thesis
    by (simp add: float_exponent_def q bit_length_1 Let_def)
qed

lemma round_half_even_of_int: "round_half_even (of_int j) = j"
  by (simp add: round_half_even_def Let_def)

lemma fl64_of_int_pos:
  assumes k: "0 < k"
  shows "0 < fl64 (of_int k)"
proof -
  define e where "e = bit_length k - 1"
  have e0: "0 \<le> e" using bit_length_pos [OF k] by (simp add: e_def)
  have fe: "float_exponent (of_int k) = e"
    using float_exponent_of_int [OF k] by (simp add: e_def)
  have t: "max (e - 52) (- 1074) = e - 52" using e0 by simp
  have p: "0 < pow2 (e - 52)" by (simp add: pow2_def)
  have lo: "(2::int) ^ nat e \<le> k" using bit_length_bounds [OF k] by (simp add: e_def)
  have "pow2 (e - 52) \<le> pow2 e"
  proof (cases "0 \<le> e - 52")
    case True
    then have "nat (e - 52) \<le> nat e" by simp
    then have "(2::rat) ^ nat (e - 52) \<le> 2 ^ nat e" by (intro power_increasing) simp_all
    with True e0 show ?thesis by (simp add: pow2_def)
  next
    case False
    have "(1::rat) / 2 ^ nat (- (e - 52)) \<le> 1" by (simp add: divide_le_eq)
    also have "\<dots> \<le> 2 ^ nat e" by simp
    finally show ?thesis using False e0 by (simp add: pow2_def)
  qed
  also have "pow2 e = of_int (2 ^ nat e)" using e0 by (simp add: pow2_def)
  also have "\<dots> \<le> of_int k" using lo by (simp only: of_int_le_iff)
  finally have "1 \<le> of_int k / pow2 (e - 52)" using p by (simp add: le_divide_eq)
  then have "1 \<le> \<lfloor>of_int k / pow2 (e - 52)\<rfloor>" by (simp add: le_floor_iff)
  then have "1 \<le> round_half_even (of_int k / pow2 (e - 52))"
    by (simp add: round_half_even_def Let_def)
  then have "0 < (of_int (round_half_even (of_int k / pow2 (e - 52))) :: rat)" by simp
  from this p have "0 < of_int (round_half_even (of_int k / pow2 (e - 52))) * pow2 (e - 52)"
    by (rule mult_pos_pos)
  then show ?thesis
    using k by (simp add: fl64_def fe t Let_def)
qed

lemma fl64_of_nat_eq_0_iff: "fl64 (of_nat n) = 0 \<longleftrightarrow> n = 0"
proof (cases "n = 0")
  case True then show ?thesis by (simp add: fl64_def)
next
  case False
  then have "0 < int n" by simp
  from fl64_of_int_pos [OF this] False show ?thesis by simp
qed

lemma fl64_of_int_exact:
  assumes k: "0 < k" and le: "k \<le> 2 ^ 53"
  shows "fl64 (of_int k) = of_int k"
proof -
  define e where "e = bit_length k - 1"
  have e0: "0 \<le> e" using bit_length_pos [OF k] by (simp add: e_def)
  have fe: "float_exponent (of_int k) = e"
    using float_exponent_of_int [OF k] by (simp add: e_def)
  have lo: "(2::int) ^ nat e \<le> k" using bit_length_bounds [OF k] by (simp add: e_def)
  from lo le have p2: "(2::int) ^ nat e \<le> 2 ^ 53" by (rule order_trans)
  have "nat e \<le> 53" by (rule power_le_imp_le_exp [OF _ p2]) simp
  then have e53: "e \<le> 53" by simp
  show ?thesis
  proof (cases "e \<le> 52")
    case True
    have t: "max (e - 52) (- 1074) = e - 52" using e0 by simp
    have p: "pow2 (e - 52) = 1 / 2 ^ nat (52 - e)"
    proof (cases "e = 52")
      case True then show ?thesis by (simp add: pow2_def)
    next
      case False
      with \<open>e \<le> 52\<close> have "\<not> 0 \<le> e - 52" by simp
      moreover have "- (e - 52) = 52 - e" by simp
      ultimately show ?thesis by (simp add: pow2_def)
    qed
    have q: "of_int k / pow2 (e - 52) = (of_int (k * 2 ^ nat (52 - e)) :: rat)"
      by (simp add: p)
    have "round_half_even (of_int k / pow2 (e - 52)) = k * 2 ^ nat (52 - e)"
      unfolding q by (rule round_half_even_of_int)
    then have "of_int (round_half_even (of_int k / pow2 (e - 52))) * pow2 (e - 52)
                 = (of_int k :: rat)"
      by (simp add: p)
    then show ?thesis using k by (simp add: fl64_def fe t Let_def)
  next
    case False
    with e53 have e: "e = 53" by simp
    from lo e le have kk: "k = 2 ^ 53" by simp
    have t: "max (e - 52) (- 1074) = 1" using e by simp
    have p: "pow2 1 = 2" by (simp add: pow2_def)
    have "(of_int k :: rat) / 2 = of_int (2 ^ 52)" by (simp add: kk)
    then have "round_half_even (of_int k / 2) = 2 ^ 52"
      by (simp only: round_half_even_of_int)
    then have "of_int (round_half_even (of_int k / pow2 1)) * pow2 1 = (of_int k :: rat)"
      by (simp add: p kk)
    then show ?thesis using k by (simp add: fl64_def fe t Let_def)
  qed
qed

lemma fl64_of_nat_exact: "n \<le> 2 ^ 53 \<Longrightarrow> fl64 (of_nat n) = of_nat n"
proof (cases "n = 0")
  case True then show ?thesis by (simp add: fl64_def)
next
  case False
  assume "n \<le> 2 ^ 53"
  then have "int n \<le> 2 ^ 53" by (metis of_nat_le_iff of_nat_numeral of_nat_power)
  moreover from False have "0 < int n" by simp
  ultimately have "fl64 (of_int (int n)) = of_int (int n)" by (rule fl64_of_int_exact [rotated])
  then show ?thesis by simp
qed

section \<open>Resize: scale factor and resized shape\<close>

lemma resize_scale_factor_value:
  assumes pos: "0 < min h w" and mx: "py_float (max_size tr) = Inr m"
  shows "resize_scale_factor tr sz h w =
           Inr (if float_gt (fl64 (fl64 (of_nat (max h w)) * fl64 (sz / fl64 (of_nat (min h w)))))
                     (max_size tr)
                then fl64 (m / fl64 (of_nat (max h w)))
                else fl64 (sz / fl64 (of_nat (min h w))))"
proof -
  have ne: "fl64 (of_nat (min h w)) \<noteq> 0"
    using pos by (simp add: fl64_of_nat_eq_0_iff)
  show ?thesis
    unfolding resize_scale_factor_def Let_def using ne by (simp add: mx)
qed

lemma resize_with_scale_factor:
  assumes shp: "shape img = [c, h, w]"
    and sz: "resize_size tr u = Inr sz"
    and sf: "resize_scale_factor tr sz h w = Inr sf"
  shows "resize tr sample u img target =
           ebind (interpolate sample img sf) (\<lambda>img'.
             case target of
               None \<Rightarrow> Inr (img', None)
             | Some t \<Rightarrow>
                 ebind (dict_get t ''boxes'') (\<lambda>bbox.
                 ebind (resize_boxes bbox [int h, int w]
                          (map int (drop (ndim img' - 2) (shape img')))) (\<lambda>bbox.
                   Inr (img', Some (t(''boxes'' \<mapsto> bbox))))))"
  by (simp add: resize_def ndim_def shp sz sf Let_def)

lemma interpolate_3d:
  assumes shp: "shape img = [c, h, w]"
  shows "interpolate sample img sf =
           (if \<lfloor>fl64 (fl64 (of_nat h) * sf)\<rfloor> \<le> 0 \<or> \<lfloor>fl64 (fl64 (of_nat w) * sf)\<rfloor> \<le> 0 \<or>
               2 ^ 63 \<le> \<lfloor>fl64 (fl64 (of_nat h) * sf)\<rfloor> \<or> 2 ^ 63 \<le> \<lfloor>fl64 (fl64 (of_nat w) * sf)\<rfloor> \<or>
               c = 0
            then Inl RuntimeError
            else Inr (tabulate [c, nat \<lfloor>fl64 (fl64 (of_nat h) * sf)\<rfloor>,
                                nat \<lfloor>fl64 (fl64 (of_nat w) * sf)\<rfloor>] (sample img sf)))"
  by (simp add: interpolate_def shp Let_def)

lemma resize_3d:
  assumes shp: "shape img = [c, h, w]"
    and sz: "resize_size tr u = Inr sz"
    and sf: "resize_scale_factor tr sz h w = Inr sf"
  shows "resize tr sample u img None =
           (if \<lfloor>fl64 (fl64 (of_nat h) * sf)\<rfloor> \<le> 0 \<or> \<lfloor>fl64 (fl64 (of_nat w) * sf)\<rfloor> \<le> 0 \<or>
               2 ^ 63 \<le> \<lfloor>fl64 (fl64 (of_nat h) * sf)\<rfloor> \<or> 2 ^ 63 \<le> \<lfloor>fl64 (fl64 (of_nat w) * sf)\<rfloor> \<or>
               c = 0
            then Inl RuntimeError
            else Inr (tabulate [c, nat \<lfloor>fl64 (fl64 (of_nat h) * sf)\<rfloor>,
                                nat \<lfloor>fl64 (fl64 (of_nat w) * sf)\<rfloor>] (sample img sf), None))"
    and "resize tr sample u img (Some t) =
           (if \<lfloor>fl64 (fl64 (of_nat h) * sf)\<rfloor> \<le> 0 \<or> \<lfloor>fl64 (fl64 (of_nat w) * sf)\<rfloor> \<le> 0 \<or>
               2 ^ 63 \<le> \<lfloor>fl64 (fl64 (of_nat h) * sf)\<rfloor> \<or> 2 ^ 63 \<le> \<lfloor>fl64 (fl64 (of_nat w) * sf)\<rfloor> \<or>
               c = 0
            then Inl RuntimeError
            else ebind (dict_get t ''boxes'') (\<lambda>bbox.
                 ebind (resize_boxes bbox [int h, int w]
                          [int (nat \<lfloor>fl64 (fl64 (of_nat h) * sf)\<rfloor>),
                           int (nat \<lfloor>fl64 (fl64 (of_nat w) * sf)\<rfloor>)]) (\<lambda>bbox.
                   Inr (tabulate [c, nat \<lfloor>fl64 (fl64 (of_nat h) * sf)\<rfloor>,
                                     nat \<lfloor>fl64 (fl64 (of_nat w) * sf)\<rfloor>] (sample img sf),
                        Some (t(''boxes'' \<mapsto> bbox))))))"
  unfolding resize_with_scale_factor [OF shp sz sf] interpolate_3d [OF shp]
  by (simp_all add: ndim_def)

lemma example_scale_factor_value:
  "fl64 (640 / 600) = 4803839602528529 / 4503599627370496"
  "\<bar>fl64 (640 / 600) - 640 / 600\<bar> \<le> 1 / 2 ^ 53"
  by code_simp+

lemma example_scale_factor:
  "fl64 600 = 600" "fl64 800 = 800" "py_float 640 = Inr 640" "py_float 1000 = Inr 1000"
  "float_gt (fl64 (800 * fl64 (640 / 600))) 1000 = False"
  "\<lfloor>fl64 (600 * fl64 (640 / 600))\<rfloor> = 640"
  "\<lfloor>fl64 (800 * fl64 (640 / 600))\<rfloor> = 853"
  by code_simp+

lemma example_resize:
  fixes mean std :: "rat list"
  assumes s0: "shape img0 = [3, 600, 800]"
  defines "tr0 \<equiv> (init (Sequence [480, 512, 544, 576, 608, 640]) 1000 mean std)
                            \<lparr>training := False\<rparr>"
  shows "resize_size tr0 u0 = Inr 640"
    and "resize_scale_factor tr0 640 600 800 = Inr (fl64 (640 / 600))"
    and "resize tr0 sample u0 img0 None =
           Inr (tabulate [3, 640, 853] (sample img0 (fl64 (640 / 600))), None)"
proof -
  show size0: "resize_size tr0 u0 = Inr 640"
    by (simp add: tr0_def resize_size_def init_def py_index_def example_scale_factor)
  have mx: "py_float (max_size tr0) = Inr 1000"
    by (simp add: tr0_def init_def example_scale_factor)
  have m: "max_size tr0 = 1000" by (simp add: tr0_def init_def)
  have "resize_scale_factor tr0 640 600 800 =
           Inr (if float_gt (fl64 (fl64 (of_nat (max 600 800)) * fl64 (640 / fl64 (of_nat (min 600 800)))))
                     (max_size tr0)
                then fl64 (1000 / fl64 (of_nat (max 600 800)))
                else fl64 (640 / fl64 (of_nat (min 600 800))))"
    by (rule resize_scale_factor_value [OF _ mx]) simp
  also have "of_nat (max 600 800) = (800 :: rat)" by simp
  also have "of_nat (min 600 800) = (600 :: rat)" by simp
  finally show scale0: "resize_scale_factor tr0 640 600 800 = Inr (fl64 (640 / 600))"
    unfolding m by (simp only: example_scale_factor if_False)
  have "of_nat 600 = (600 :: rat)" "of_nat 800 = (800 :: rat)" by simp_all
  with resize_3d(1) [OF s0 size0 scale0, of sample]
  show "resize tr0 sample u0 img0 None =
           Inr (tabulate [3, 640, 853] (sample img0 (fl64 (640 / 600))), None)"
    by (simp only: example_scale_factor) simp
qed

text \<open>
  Claim C1. For an image of height \<open>h\<close> and width \<open>w\<close> (both positive) and the selected
  minimum edge \<open>sz\<close>, \<^verbatim>\<open>resize\<close> uses the scale factor \<open>sz / min h w\<close>, unless the
  longer edge times that factor exceeds \<^verbatim>\<open>self.max_size\<close>, in which case it uses
  \<open>max_size / max h w\<close>; every quotient and product is the float one, rounded by
  \<open>fl64\<close>, and the edges themselves are exact as floats up to \<open>2 ^ 53\<close>. That factor
  is what \<^verbatim>\<open>resize\<close> passes to the interpolation, with or without a target, and the
  resized image has height \<open>\<lfloor>h * sf\<rfloor>\<close> and width \<open>\<lfloor>w * sf\<rfloor>\<close>, the products again being
  float products. For an image of shape \<open>[3, 600, 800]\<close>, minimum sizes
  \<open>(480, 512, 544, 576, 608, 640)\<close> and maximum size 1000 in inference mode, the factor is
  the float \<open>640 / 600\<close> and the resized shape is \<open>[3, 640, 853]\<close>.
\<close>

theorem resize_scale_factor_formula:
  assumes shp: "shape img = [c, h, w]"
    and sz: "resize_size tr u = Inr sz"
    and pos: "0 < min h w"
    and mx: "py_float (max_size tr) = Inr m"
  shows "(let im_min_size = fl64 (of_nat (min h w));
              im_max_size = fl64 (of_nat (max h w));
              sf = (if float_gt (fl64 (im_max_size * fl64 (sz / im_min_size))) (max_size tr)
                    then fl64 (m / im_max_size)
                    else fl64 (sz / im_min_size));
              oh = \<lfloor>fl64 (fl64 (of_nat h) * sf)\<rfloor>;
              ow = \<lfloor>fl64 (fl64 (of_nat w) * sf)\<rfloor>;
              rejected = (oh \<le> 0 \<or> ow \<le> 0 \<or> 2 ^ 63 \<le> oh \<or> 2 ^ 63 \<le> ow \<or> c = 0);
              img' = tabulate [c, nat oh, nat ow] (sample img sf)
          in resize_scale_factor tr sz h w = Inr sf \<and>
             resize tr sample u img None =
               (if rejected then Inl RuntimeError else Inr (img', None)) \<and>
             (\<forall>t. resize tr sample u img (Some t) =
                    (if rejected then Inl RuntimeError
                     else ebind (dict_get t ''boxes'') (\<lambda>bbox.
                          ebind (resize_boxes bbox [int h, int w] [int (nat oh), int (nat ow)])
                            (\<lambda>bbox. Inr (img', Some (t(''boxes'' \<mapsto> bbox))))))) \<and>
             (max h w \<le> 2 ^ 53 \<longrightarrow>
                im_min_size = of_nat (min h w) \<and> im_max_size = of_nat (max h w)))
         \<and> (\<forall>img0 mean std u0.
               shape img0 = [3, 600, 800] \<longrightarrow>
               (let tr0 = (init (Sequence [480, 512, 544, 576, 608, 640]) 1000 mean std)
                            \<lparr>training := False\<rparr>
                in resize_size tr0 u0 = Inr 640 \<and>
                   resize_scale_factor tr0 640 600 800 = Inr (fl64 (640 / 600)) \<and>
                   fl64 (640 / 600) = 4803839602528529 / 4503599627370496 \<and>
                   \<bar>fl64 (640 / 600) - 640 / 600\<bar> \<le> 1 / 2 ^ 53 \<and>
                   resize tr0 sample u0 img0 None =
                     Inr (tabulate [3, 640, 853] (sample img0 (fl64 (640 / 600))), None)))"
proof (intro conjI)
  define sf where "sf = (if float_gt (fl64 (fl64 (of_nat (max h w))
                                          * fl64 (sz / fl64 (of_nat (min h w))))) (max_size tr)
                    then fl64 (m / fl64 (of_nat (max h w)))
                    else fl64 (sz / fl64 (of_nat (min h w))))"
  have a: "resize_scale_factor tr sz h w = Inr sf"
    unfolding sf_def by (rule resize_scale_factor_value [OF pos mx])
  note r = resize_3d [OF shp sz a, of sample]
  have ex: "max h w \<le> 2 ^ 53 \<longrightarrow>
              fl64 (of_nat (min h w)) = of_nat (min h w) \<and>
              fl64 (of_nat (max h w)) = of_nat (max h w)"
  proof
    assume le: "max h w \<le> 2 ^ 53"
    moreover have "min h w \<le> max h w" by simp
    ultimately have "min h w \<le> 2 ^ 53" by (rule order_trans [rotated])
    with le show "fl64 (of_nat (min h w)) = of_nat (min h w) \<and>
              fl64 (of_nat (max h w)) = of_nat (max h w)"
      by (simp only: fl64_of_nat_exact)
  qed
  show "let im_min_size = fl64 (of_nat (min h w));
              im_max_size = fl64 (of_nat (max h w));
              sf = (if float_gt (fl64 (im_max_size * fl64 (sz / im_min_size))) (max_size tr)
                    then fl64 (m / im_max_size)
                    else fl64 (sz / im_min_size));
              oh = \<lfloor>fl64 (fl64 (of_nat h) * sf)\<rfloor>;
              ow = \<lfloor>fl64 (fl64 (of_nat w) * sf)\<rfloor>;
              rejected = (oh \<le> 0 \<or> ow \<le> 0 \<or> 2 ^ 63 \<le> oh \<or> 2 ^ 63 \<le> ow \<or> c = 0);
              img' = tabulate [c, nat oh, nat ow] (sample img sf)
          in resize_scale_factor tr sz h w = Inr sf \<and>
             resize tr sample u img None =
               (if rejected then Inl RuntimeError else Inr (img', None)) \<and>
             (\<forall>t. resize tr sample u img (Some t) =
                    (if rejected then Inl RuntimeError
                     else ebind (dict_get t ''boxes'') (\<lambda>bbox.
                          ebind (resize_boxes bbox [int h, int w] [int (nat oh), int (nat ow)])
                            (\<lambda>bbox. Inr (img', Some (t(''boxes'' \<mapsto> bbox))))))) \<and>
             (max h w \<le> 2 ^ 53 \<longrightarrow>
                im_min_size = of_nat (min h w) \<and> im_max_size = of_nat (max h w))"
    unfolding Let_def sf_def [symmetric]
    using a r(1) r(2) ex by (intro conjI allI) assumption+
next
  show "\<forall>img0 mean std u0.
               shape img0 = [3, 600, 800] \<longrightarrow>
               (let tr0 = (init (Sequence [480, 512, 544, 576, 608, 640]) 1000 mean std)
                            \<lparr>training := False\<rparr>
                in resize_size tr0 u0 = Inr 640 \<and>
                   resize_scale_factor tr0 640 600 800 = Inr (fl64 (640 / 600)) \<and>
                   fl64 (640 / 600) = 4803839602528529 / 4503599627370496 \<and>
                   \<bar>fl64 (640 / 600) - 640 / 600\<bar> \<le> 1 / 2 ^ 53 \<and>
                   resize tr0 sample u0 img0 None =
                     Inr (tabulate [3, 640, 853] (sample img0 (fl64 (640 / 600))), None))"
    unfolding Let_def
    using example_resize example_scale_factor_value by (intro allI impI conjI) assumption+
qed

lemma example_small_resize:
  "fl64 11 = 11" "py_float 15 = Inr 15" "py_float 100 = Inr 100"
  "float_gt (fl64 (11 * fl64 (15 / 11))) 100 = False"
  "\<lfloor>fl64 (11 * fl64 (15 / 11))\<rfloor> = 14"
  by code_simp+

theorem resize_scale_factor_formula_witness:
  "shape (new_full [1, 11, 11] 0) = [1, 11, 11]
   \<and> resize_size ((init (Scalar 15) 100 [0] [1])\<lparr>training := False\<rparr>) 0 = Inr 15
   \<and> 0 < min (11::nat) 11
   \<and> py_float (max_size ((init (Scalar 15) 100 [0] [1])\<lparr>training := False\<rparr>)) = Inr 100
   \<and> resize_scale_factor ((init (Scalar 15) 100 [0] [1])\<lparr>training := False\<rparr>) 15 11 11
       = Inr (fl64 (15 / 11))
   \<and> resize ((init (Scalar 15) 100 [0] [1])\<lparr>training := False\<rparr>) (\<lambda>_ _ _. 0) 0
        (new_full [1, 11, 11] 0) None = Inr (tabulate [1, 14, 14] (\<lambda>_. 0), None)"
proof -
  let ?tr = "(init (Scalar 15) 100 [0] [1])\<lparr>training := False\<rparr>"
  have s: "shape (new_full [1, 11, 11] 0) = [1, 11, 11]" by (simp add: new_full_def)
  have z: "resize_size ?tr 0 = Inr 15"
    by (simp add: resize_size_def init_def py_index_def example_small_resize)
  have p: "0 < min (11::nat) 11" by simp
  have m: "max_size ?tr = 100" by (simp add: init_def)
  have mx: "py_float (max_size ?tr) = Inr 100" by (simp only: m example_small_resize)
  have n: "of_nat (min 11 11) = (11 :: rat)" "of_nat (max 11 11) = (11 :: rat)"
    "of_nat 11 = (11 :: rat)" by simp_all
  from resize_scale_factor_formula [OF s z p mx, of "\<lambda>_ _ _. 0"]
  have "resize_scale_factor ?tr 15 11 11 = Inr (fl64 (15 / 11)) \<and>
        resize ?tr (\<lambda>_ _ _. 0) 0 (new_full [1, 11, 11] 0) None
          = Inr (tabulate [1, 14, 14] (\<lambda>_. 0), None)"
    unfolding Let_def n m by (simp only: example_small_resize if_False) simp
  with s z p mx show ?thesis by blast
qed

section \<open>Resize: the minimum edge in inference mode\<close>

lemma resize_size_inference_last:
  "\<not> training tr \<Longrightarrow> min_size tr \<noteq> [] \<Longrightarrow>
   resize_size tr u = py_float (of_int (last (min_size tr)))"
  by (simp add: resize_size_def py_index_last)

lemma py_float_480: "py_float 480 = Inr 480"
  by code_simp

text \<open>
  Claim C6. In inference mode \<^verbatim>\<open>resize\<close> takes \<^verbatim>\<open>self.min_size[-1]\<close>, the last
  configured minimum edge. For the configuration \<open>(640, 480)\<close> that is 480, although the
  largest configured value is 640.
\<close>

theorem resize_size_inference_takes_last:
  "resize_size ((init (Sequence [640, 480]) mx mean std)\<lparr>training := False\<rparr>) u = Inr 480
   \<and> Max (set [640, 480 :: int]) = 640"
  by (simp add: resize_size_def init_def py_index_def py_float_480)

section \<open>Rescaling boxes\<close>

lemma upt_4: "[0..<4] = [0, Suc 0, 2, 3]"
  by (simp add: upt_rec)

lemma valid_index_2D:
  "valid_index [n, m] idx \<longleftrightarrow> (\<exists>i j. idx = [i, j] \<and> i < n \<and> j < m)"
proof (cases idx)
  case Nil then show ?thesis by simp
next
  case (Cons i r)
  then show ?thesis
  proof (cases r)
    case Nil with Cons show ?thesis by simp
  next
    case (Cons j r') 
    with \<open>idx = i # r\<close> show ?thesis by (cases r') auto
  qed
qed

lemma elem_tensor_scale:
  "valid_index (shape t) idx \<Longrightarrow> elem (tensor_scale t r) idx = elem t idx * r"
  by (simp add: tensor_scale_def elem_tabulate)

lemma shape_tensor_scale [simp]: "shape (tensor_scale t r) = shape t"
  by (simp add: tensor_scale_def)

lemma unbind1_boxes:
  "shape boxes = [n, 4] \<Longrightarrow>
   unbind1 boxes = Inr (map (\<lambda>j. tabulate [n] (\<lambda>idx. case idx of [] \<Rightarrow> 0 | i # r \<Rightarrow> elem boxes (i # j # r)))
                          [0, Suc 0, 2, 3])"
  by (simp add: unbind1_def upt_4)

lemma resize_boxes_tabulate:
  assumes shp: "shape boxes = [n, 4]" and oh: "oh \<noteq> 0" and ow: "ow \<noteq> 0"
  shows "resize_boxes boxes [oh, ow] [nh, nw] =
           Inr (tabulate [n, 4]
                  (\<lambda>idx. elem boxes idx *
                          (if even (idx ! 1) then of_int nw / of_int ow else of_int nh / of_int oh)))"
proof -
  let ?col = "\<lambda>j. tabulate [n] (\<lambda>idx. case idx of [] \<Rightarrow> 0 | i # r \<Rightarrow> elem boxes (i # j # r))"
  let ?rw = "(of_int nw :: rat) / of_int ow" and ?rh = "(of_int nh :: rat) / of_int oh"
  let ?ts = "[tensor_scale (?col 0) ?rw, tensor_scale (?col (Suc 0)) ?rh,
              tensor_scale (?col 2) ?rw, tensor_scale (?col 3) ?rh]"
  have "resize_boxes boxes [oh, ow] [nh, nw] = stack1 ?ts"
    using oh ow by (simp add: resize_boxes_def unbind1_boxes [OF shp] Let_def)
  also have "\<dots> = Inr (tabulate [n, 4]
                 (\<lambda>idx. case idx of i # j # r \<Rightarrow> elem (?ts ! j) (i # r) | _ \<Rightarrow> 0))"
    by (simp add: stack1_def eval_nat_numeral)
  also have "tabulate [n, 4] (\<lambda>idx. case idx of i # j # r \<Rightarrow> elem (?ts ! j) (i # r) | _ \<Rightarrow> 0)
        = tabulate [n, 4] (\<lambda>idx. elem boxes idx * (if even (idx ! 1) then ?rw else ?rh))"
  proof (rule tabulate_cong)
    fix idx assume "valid_index [n, 4] idx"
    then obtain i j where idx: "idx = [i, j]" and i: "i < n" and j: "j < 4"
      by (auto simp: valid_index_2D)
    from j have "j = 0 \<or> j = Suc 0 \<or> j = 2 \<or> j = 3" by arith
    then show "(case idx of i # j # r \<Rightarrow> elem (?ts ! j) (i # r) | _ \<Rightarrow> 0)
               = elem boxes idx * (if even (idx ! 1) then ?rw else ?rh)"
      using i by (elim disjE) (simp_all add: idx elem_tensor_scale elem_tabulate)
  qed
  finally show ?thesis .
qed

lemma example_boxes:
  "resize_boxes \<lparr>shape = [1, 4], data = [10, 10, 50, 50]\<rparr> [600, 800] [640, 853]
     = Inr \<lparr>shape = [1, 4],
            data = [10 * 853 / 800, 10 * 640 / 600, 50 * 853 / 800, 50 * 640 / 600]\<rparr>"
  by code_simp

text \<open>
  Claim C3. For a box tensor of shape \<open>[n, 4]\<close> and sizes (height, width) with a
  non-zero original height and width, \<^verbatim>\<open>resize_boxes\<close> returns a tensor of the same
  shape in which columns 0 and 2 (xmin, xmax) are multiplied by the width ratio
  \<open>new_w / old_w\<close> and columns 1 and 3 (ymin, ymax) by the height ratio
  \<open>new_h / old_h\<close>. The boxes \<open>[[10, 10, 50, 50]]\<close> on a 600 x 800 image resized to
  640 x 853 become \<open>[[10 * 853 / 800, 10 * 640 / 600, 50 * 853 / 800, 50 * 640 / 600]]\<close>.
\<close>

theorem resize_boxes_scales_axes:
  assumes shp: "shape boxes = [n, 4]" and oh: "oh \<noteq> 0" and ow: "ow \<noteq> 0"
  shows "(\<exists>r. resize_boxes boxes [oh, ow] [nh, nw] = Inr r \<and> shape r = [n, 4] \<and>
             (\<forall>i<n. elem r [i, 0] = elem boxes [i, 0] * (of_int nw / of_int ow) \<and>
                    elem r [i, 1] = elem boxes [i, 1] * (of_int nh / of_int oh) \<and>
                    elem r [i, 2] = elem boxes [i, 2] * (of_int nw / of_int ow) \<and>
                    elem r [i, 3] = elem boxes [i, 3] * (of_int nh / of_int oh)))
         \<and> resize_boxes \<lparr>shape = [1, 4], data = [10, 10, 50, 50]\<rparr> [600, 800] [640, 853]
             = Inr \<lparr>shape = [1, 4],
                    data = [10 * 853 / 800, 10 * 640 / 600, 50 * 853 / 800, 50 * 640 / 600]\<rparr>"
proof (rule conjI)
  let ?r = "tabulate [n, 4]
              (\<lambda>idx. elem boxes idx *
                      (if even (idx ! 1) then of_int nw / of_int ow else of_int nh / of_int oh))"
  have res: "resize_boxes boxes [oh, ow] [nh, nw] = Inr ?r"
    by (rule resize_boxes_tabulate [OF shp oh ow])
  have "elem ?r [i, 0] = elem boxes [i, 0] * (of_int nw / of_int ow) \<and>
        elem ?r [i, 1] = elem boxes [i, 1] * (of_int nh / of_int oh) \<and>
        elem ?r [i, 2] = elem boxes [i, 2] * (of_int nw / of_int ow) \<and>
        elem ?r [i, 3] = elem boxes [i, 3] * (of_int nh / of_int oh)" if "i < n" for i
    using that by (simp add: elem_tabulate)
  with res show "\<exists>r. resize_boxes boxes [oh, ow] [nh, nw] = Inr r \<and> shape r = [n, 4] \<and>
             (\<forall>i<n. elem r [i, 0] = elem boxes [i, 0] * (of_int nw / of_int ow) \<and>
                    elem r [i, 1] = elem boxes [i, 1] * (of_int nh / of_int oh) \<and>
                    elem r [i, 2] = elem boxes [i, 2] * (of_int nw / of_int ow) \<and>
                    elem r [i, 3] = elem boxes [i, 3] * (of_int nh / of_int oh))"
    by (intro exI [of _ ?r]) simp
next
  show "resize_boxes \<lparr>shape = [1, 4], data = [10, 10, 50, 50]\<rparr> [600, 800] [640, 853]
             = Inr \<lparr>shape = [1, 4],
                    data = [10 * 853 / 800, 10 * 640 / 600, 50 * 853 / 800, 50 * 640 / 600]\<rparr>"
    by (rule example_boxes)
qed

theorem resize_boxes_scales_axes_witness:
  "shape \<lparr>shape = [1, 4], data = [1, 2, 3, 4]\<rparr> = [1, 4] \<and> (2::int) \<noteq> 0 \<and> (4::int) \<noteq> 0 \<and>
   (\<exists>r. resize_boxes \<lparr>shape = [1, 4], data = [1, 2, 3, 4]\<rparr> [2, 4] [4, 12] = Inr r \<and>
        shape r = [1, 4] \<and>
        elem r [0, 0] = 3 \<and> elem r [0, 1] = 4 \<and> elem r [0, 2] = 9 \<and> elem r [0, 3] = 8)"
proof -
  have s: "shape \<lparr>shape = [1, 4], data = [1, 2, 3, 4]\<rparr> = [1, 4]" by simp
  have a: "(2::int) \<noteq> 0" and b: "(4::int) \<noteq> 0" by simp_all
  from resize_boxes_scales_axes [OF s a b, of 4 12]
  show ?thesis by (auto simp: elem_def)
qed

text \<open>
  Claim C4. Over the rationals, rescaling a well-formed box tensor of shape \<open>[n, 4]\<close>
  from an original size to a new size and back again, all four edge lengths being non-zero,
  returns the original boxes exactly.
\<close>

theorem resize_boxes_round_trip:
  assumes wf: "wf_tensor boxes" and shp: "shape boxes = [n, 4]"
    and oh: "oh \<noteq> 0" and ow: "ow \<noteq> 0" and nh: "nh \<noteq> 0" and nw: "nw \<noteq> 0"
  shows "ebind (resize_boxes boxes [oh, ow] [nh, nw]) (\<lambda>r. resize_boxes r [nh, nw] [oh, ow])
           = Inr boxes"
proof -
  let ?f = "\<lambda>idx. elem boxes idx *
                   (if even (idx ! 1) then of_int nw / of_int ow else of_int nh / of_int oh)"
  let ?r = "tabulate [n, 4] ?f"
  have fwd: "resize_boxes boxes [oh, ow] [nh, nw] = Inr ?r"
    by (rule resize_boxes_tabulate [OF shp oh ow])
  have "resize_boxes ?r [nh, nw] [oh, ow] =
          Inr (tabulate [n, 4]
                 (\<lambda>idx. elem ?r idx *
                         (if even (idx ! 1) then of_int ow / of_int nw else of_int oh / of_int nh)))"
    by (rule resize_boxes_tabulate [OF _ nh nw]) simp
  also have "tabulate [n, 4]
                 (\<lambda>idx. elem ?r idx *
                         (if even (idx ! 1) then of_int ow / of_int nw else of_int oh / of_int nh))
             = tabulate [n, 4] (elem boxes)"
  proof (rule tabulate_cong)
    fix idx assume v: "valid_index [n, 4] idx"
    then have "elem ?r idx = ?f idx" by (rule elem_tabulate)
    then show "elem ?r idx * (if even (idx ! 1) then of_int ow / of_int nw else of_int oh / of_int nh)
               = elem boxes idx"
      using oh ow nh nw by simp
  qed
  also have "\<dots> = boxes"
    using tabulate_elem [OF wf] by (simp add: shp)
  finally show ?thesis by (simp add: fwd)
qed

theorem resize_boxes_round_trip_witness:
  "wf_tensor \<lparr>shape = [1, 4], data = [10, 10, 50, 50]\<rparr> \<and>
   shape \<lparr>shape = [1, 4], data = [10, 10, 50, 50]\<rparr> = [1, 4] \<and>
   (600::int) \<noteq> 0 \<and> (800::int) \<noteq> 0 \<and> (640::int) \<noteq> 0 \<and> (853::int) \<noteq> 0 \<and>
   ebind (resize_boxes \<lparr>shape = [1, 4], data = [10, 10, 50, 50]\<rparr> [600, 800] [640, 853])
     (\<lambda>r. resize_boxes r [640, 853] [600, 800]) = Inr \<lparr>shape = [1, 4], data = [10, 10, 50, 50]\<rparr>"
proof -
  have w: "wf_tensor \<lparr>shape = [1, 4], data = [10, 10, 50, 50]\<rparr>" by (simp add: wf_tensor_def)
  have s: "shape \<lparr>shape = [1, 4], data = [10, 10, 50, 50]\<rparr> = [1, 4]" by simp
  have nz: "(600::int) \<noteq> 0" "(800::int) \<noteq> 0" "(640::int) \<noteq> 0" "(853::int) \<noteq> 0" by simp_all
  from resize_boxes_round_trip [OF w s nz] w s nz show ?thesis by blast
qed

section \<open>Postprocessing\<close>

lemma rescale_prediction_Inr_iff:
  "rescale_prediction pred a b = Inr q \<longleftrightarrow>
     (\<exists>b0 b'. pred ''boxes'' = Some b0 \<and> resize_boxes b0 a b = Inr b' \<and> q = pred(''boxes'' \<mapsto> b'))"
  by (auto simp: rescale_prediction_def dict_get_def ebind_Inr_iff split: option.splits)

lemma postprocess_step_eq:
  "postprocess_step (i, a, b) res =
     ebind (rescale_prediction (res ! i) a b) (\<lambda>p. Inr (res[i := p]))"
proof (cases "dict_get (res ! i) ''boxes''")
  case (Inl e) then show ?thesis by (simp add: postprocess_step_def rescale_prediction_def)
next
  case (Inr bx)
  then show ?thesis
    by (cases "resize_boxes bx a b") (simp_all add: postprocess_step_def rescale_prediction_def)
qed

lemma postprocess_loop:
  "k + length ps \<le> length res \<Longrightarrow>
   efold postprocess_step (zip [k..<k + length ps] ps) res = Inr res' \<longleftrightarrow>
     length res' = length res \<and>
     (\<forall>i<length res.
        if k \<le> i \<and> i < k + length ps
        then rescale_prediction (res ! i) (fst (ps ! (i - k))) (snd (ps ! (i - k))) = Inr (res' ! i)
        else res' ! i = res ! i)"
proof (induction ps arbitrary: k res)
  case Nil
  show ?case by (auto simp: list_eq_iff_nth_eq)
next
  case (Cons p ps)
  obtain a b where p: "p = (a, b)" by (cases p)
  have e: "k + length (p # ps) = Suc k + length ps" by simp
  have upt: "[k..<k + length (p # ps)] = k # [Suc k..<Suc k + length ps]"
    unfolding e by (rule upt_conv_Cons) simp
  have k: "k < length res" using Cons.prems by simp
  have IH: "efold postprocess_step (zip [Suc k..<Suc k + length ps] ps) (res[k := q]) = Inr res' \<longleftrightarrow>
     length res' = length res \<and>
     (\<forall>i<length res.
        if Suc k \<le> i \<and> i < Suc k + length ps
        then rescale_prediction (res[k := q] ! i) (fst (ps ! (i - Suc k))) (snd (ps ! (i - Suc k))) = Inr (res' ! i)
        else res' ! i = res[k := q] ! i)" for q
    using Cons.IH [of "Suc k" "res[k := q]"] Cons.prems by (simp del: upt_Suc)
  have unfold: "efold postprocess_step (zip [k..<k + length (p # ps)] (p # ps)) res = Inr res' \<longleftrightarrow>
      (\<exists>q. rescale_prediction (res ! k) a b = Inr q \<and>
           efold postprocess_step (zip [Suc k..<Suc k + length ps] ps) (res[k := q]) = Inr res')"
    unfolding upt by (auto simp add: p postprocess_step_eq ebind_Inr_iff simp del: upt_Suc)
  show ?case
  proof
    assume "efold postprocess_step (zip [k..<k + length (p # ps)] (p # ps)) res = Inr res'"
    then obtain q where q: "rescale_prediction (res ! k) a b = Inr q"
      and rest: "efold postprocess_step (zip [Suc k..<Suc k + length ps] ps) (res[k := q]) = Inr res'"
      using unfold by blast
    from rest IH [of q] have len: "length res' = length res"
      and el: "\<And>i. i < length res \<Longrightarrow>
        (if Suc k \<le> i \<and> i < Suc k + length ps
        then rescale_prediction (res[k := q] ! i) (fst (ps ! (i - Suc k))) (snd (ps ! (i - Suc k))) = Inr (res' ! i)
        else res' ! i = res[k := q] ! i)" by blast+
    have "if k \<le> i \<and> i < k + length (p # ps)
        then rescale_prediction (res ! i) (fst ((p # ps) ! (i - k))) (snd ((p # ps) ! (i - k))) = Inr (res' ! i)
        else res' ! i = res ! i" if i: "i < length res" for i
    proof (cases "i = k")
      case True
      with el [OF i] k q show ?thesis by (simp add: p)
    next
      case False
      then show ?thesis
        using el [OF i] by (auto simp: nth_Cons' Suc_diff_le split: if_splits)
    qed
    with len show "length res' = length res \<and>
     (\<forall>i<length res.
        if k \<le> i \<and> i < k + length (p # ps)
        then rescale_prediction (res ! i) (fst ((p # ps) ! (i - k))) (snd ((p # ps) ! (i - k))) = Inr (res' ! i)
        else res' ! i = res ! i)" by blast
  next
    assume R: "length res' = length res \<and>
     (\<forall>i<length res.
        if k \<le> i \<and> i < k + length (p # ps)
        then rescale_prediction (res ! i) (fst ((p # ps) ! (i - k))) (snd ((p # ps) ! (i - k))) = Inr (res' ! i)
        else res' ! i = res ! i)"
    then have len: "length res' = length res"
      and el: "\<And>i. i < length res \<Longrightarrow> (if k \<le> i \<and> i < k + length (p # ps)
        then rescale_prediction (res ! i) (fst ((p # ps) ! (i - k))) (snd ((p # ps) ! (i - k))) = Inr (res' ! i)
        else res' ! i = res ! i)" by blast+
    from el [OF k] have q: "rescale_prediction (res ! k) a b = Inr (res' ! k)" by (simp add: p)
    have "if Suc k \<le> i \<and> i < Suc k + length ps
        then rescale_prediction (res[k := res' ! k] ! i) (fst (ps ! (i - Suc k))) (snd (ps ! (i - Suc k))) = Inr (res' ! i)
        else res' ! i = res[k := res' ! k] ! i" if i: "i < length res" for i
    proof (cases "i = k")
      case True
      with k show ?thesis by simp
    next
      case False
      then show ?thesis
        using el [OF i] by (auto simp: nth_Cons' Suc_diff_le split: if_splits)
    qed
    with len IH [of "res' ! k"] q unfold
    show "efold postprocess_step (zip [k..<k + length (p # ps)] (p # ps)) res = Inr res'" by blast
  qed
qed


lemma zip_upt_take:
  "zip [0..<n] ys = zip [0..<0 + length (take n ys)] (take n ys)"
proof -
  have "zip [0..<n] ys = take (min n (length ys)) (zip [0..<n] ys)" by simp
  also have "\<dots> = zip (take (min n (length ys)) [0..<n]) (take (min n (length ys)) ys)"
    by (rule take_zip)
  also have "take (min n (length ys)) [0..<n] = [0..<min n (length ys)]" by simp
  also have "take (min n (length ys)) ys = take n ys" by (simp add: min_def)
  finally show ?thesis by (simp add: min.commute)
qed

lemma postprocess_inference:
  assumes "\<not> training tr"
  shows "postprocess tr result image_shapes original_image_sizes = Inr res' \<longleftrightarrow>
         length res' = length result \<and>
         (\<forall>i<length result.
            if i < length image_shapes \<and> i < length original_image_sizes
            then \<exists>boxes boxes'. (result ! i) ''boxes'' = Some boxes \<and>
                   resize_boxes boxes (image_shapes ! i) (original_image_sizes ! i) = Inr boxes' \<and>
                   res' ! i = (result ! i)(''boxes'' \<mapsto> boxes')
            else res' ! i = result ! i)"
proof -
  define ps where "ps = take (length result) (zip image_shapes original_image_sizes)"
  have len: "length ps = min (length result) (min (length image_shapes) (length original_image_sizes))"
    by (simp add: ps_def)
  have nth: "ps ! i = (image_shapes ! i, original_image_sizes ! i)" if "i < length ps" for i
    using that by (simp add: ps_def)
  have le: "0 + length ps \<le> length result" by (simp add: len)
  have "postprocess tr result image_shapes original_image_sizes
          = efold postprocess_step (zip [0..<0 + length ps] ps) result"
    unfolding ps_def
    using assms zip_upt_take [of "length result" "zip image_shapes original_image_sizes"]
    by (simp add: postprocess_def postprocess_step_def)
  then have run: "postprocess tr result image_shapes original_image_sizes = Inr res' \<longleftrightarrow>
     length res' = length result \<and>
     (\<forall>i<length result.
        if 0 \<le> i \<and> i < 0 + length ps
        then rescale_prediction (result ! i) (fst (ps ! (i - 0))) (snd (ps ! (i - 0))) = Inr (res' ! i)
        else res' ! i = result ! i)"
    using postprocess_loop [OF le, of res'] by simp
  have pt: "(if 0 \<le> i \<and> i < 0 + length ps
        then rescale_prediction (result ! i) (fst (ps ! (i - 0))) (snd (ps ! (i - 0))) = Inr (res' ! i)
        else res' ! i = result ! i) \<longleftrightarrow>
        (if i < length image_shapes \<and> i < length original_image_sizes
            then \<exists>boxes boxes'. (result ! i) ''boxes'' = Some boxes \<and>
                   resize_boxes boxes (image_shapes ! i) (original_image_sizes ! i) = Inr boxes' \<and>
                   res' ! i = (result ! i)(''boxes'' \<mapsto> boxes')
            else res' ! i = result ! i)" if i: "i < length result" for i
  proof (cases "i < length image_shapes \<and> i < length original_image_sizes")
    case True
    with i have l: "i < length ps" by (simp add: len)
    have "rescale_prediction (result ! i) (fst (ps ! i)) (snd (ps ! i)) = Inr (res' ! i) \<longleftrightarrow>
          (\<exists>boxes boxes'. (result ! i) ''boxes'' = Some boxes \<and>
                   resize_boxes boxes (image_shapes ! i) (original_image_sizes ! i) = Inr boxes' \<and>
                   res' ! i = (result ! i)(''boxes'' \<mapsto> boxes'))"
      by (simp add: nth [OF l] rescale_prediction_Inr_iff)
    with True l show ?thesis by simp
  next
    case False
    with i have l: "\<not> i < length ps" by (auto simp: len)
    from False l show ?thesis by auto
  qed
  show ?thesis
    unfolding run using pt by blast
qed

lemma example_postprocess_boxes:
  "resize_boxes \<lparr>shape = [1, 4], data = [1, 1, 5, 5]\<rparr> [2, 2] [4, 6]
     = Inr \<lparr>shape = [1, 4], data = [3, 2, 15, 10]\<rparr>"
  by code_simp



section \<open>Postprocessing: the prediction dicts as objects\<close>

text \<open>
  The loop of \<^verbatim>\<open>postprocess\<close> on the store: what it leaves untouched whatever the
  list is, and what it does to the dict at index \<open>i\<close> when the dicts of the list are
  distinct objects.
\<close>

lemma postprocess_inplace_step_eq:
  "postprocess_inplace_step result (i, a, b) st =
     ebind (rescale_prediction (st (result ! i)) a b) (\<lambda>p. Inr (st(result ! i := p)))"
proof (cases "dict_get (st (result ! i)) ''boxes''")
  case (Inl e)
  then show ?thesis by (simp add: postprocess_inplace_step_def rescale_prediction_def)
next
  case (Inr bx)
  then show ?thesis
    by (cases "resize_boxes bx a b")
       (simp_all add: postprocess_inplace_step_def rescale_prediction_def)
qed

lemma rescale_prediction_frame:
  "rescale_prediction pred a b = Inr q \<Longrightarrow> key \<noteq> ''boxes'' \<Longrightarrow> q key = pred key"
  by (auto simp: rescale_prediction_Inr_iff)

lemma postprocess_inplace_loop_frame:
  "efold (postprocess_inplace_step result) (zip [k..<k + length ps] ps) st = Inr st' \<Longrightarrow>
     (\<forall>r key. key \<noteq> ''boxes'' \<longrightarrow> st' r key = st r key) \<and>
     (\<forall>r. (\<forall>i. k \<le> i \<and> i < k + length ps \<longrightarrow> r \<noteq> result ! i) \<longrightarrow> st' r = st r)"
proof (induction ps arbitrary: k st)
  case Nil
  then show ?case by simp
next
  case (Cons p ps)
  obtain a b where p: "p = (a, b)" by (cases p)
  have e: "k + length (p # ps) = Suc k + length ps" by simp
  have upt: "[k..<k + length (p # ps)] = k # [Suc k..<Suc k + length ps]"
    unfolding e by (rule upt_conv_Cons) simp
  from Cons.prems obtain q where q: "rescale_prediction (st (result ! k)) a b = Inr q"
    and rest: "efold (postprocess_inplace_step result) (zip [Suc k..<Suc k + length ps] ps)
                 (st(result ! k := q)) = Inr st'"
    unfolding upt by (auto simp add: p postprocess_inplace_step_eq ebind_Inr_iff simp del: upt_Suc)
  from Cons.IH [OF rest]
  have f1: "\<And>r key. key \<noteq> ''boxes'' \<Longrightarrow> st' r key = (st(result ! k := q)) r key"
    and f2: "\<And>r. (\<forall>i. Suc k \<le> i \<and> i < Suc k + length ps \<longrightarrow> r \<noteq> result ! i)
               \<Longrightarrow> st' r = (st(result ! k := q)) r"
    by blast+
  have a1: "st' r key = st r key" if key: "key \<noteq> ''boxes''" for r key
  proof (cases "r = result ! k")
    case True
    with f1 [OF key, of r] rescale_prediction_frame [OF q key] show ?thesis by simp
  next
    case False
    with f1 [OF key, of r] show ?thesis by simp
  qed
  have a2: "st' r = st r" if r: "\<forall>i. k \<le> i \<and> i < k + length (p # ps) \<longrightarrow> r \<noteq> result ! i" for r
  proof -
    from r have "r \<noteq> result ! k" by simp
    moreover from r have "\<forall>i. Suc k \<le> i \<and> i < Suc k + length ps \<longrightarrow> r \<noteq> result ! i" by simp
    ultimately show ?thesis using f2 [of r] by simp
  qed
  from a1 a2 show ?case by blast
qed

lemma postprocess_inplace_loop_distinct:
  "distinct result \<Longrightarrow> k + length ps \<le> length result \<Longrightarrow>
   efold (postprocess_inplace_step result) (zip [k..<k + length ps] ps) st = Inr st' \<Longrightarrow>
   k \<le> i \<Longrightarrow> i < k + length ps \<Longrightarrow>
   rescale_prediction (st (result ! i)) (fst (ps ! (i - k))) (snd (ps ! (i - k)))
     = Inr (st' (result ! i))"
proof (induction ps arbitrary: k st)
  case Nil
  then show ?case by simp
next
  case (Cons p ps)
  obtain a b where p: "p = (a, b)" by (cases p)
  have e: "k + length (p # ps) = Suc k + length ps" by simp
  have upt: "[k..<k + length (p # ps)] = k # [Suc k..<Suc k + length ps]"
    unfolding e by (rule upt_conv_Cons) simp
  from Cons.prems(3) obtain q where q: "rescale_prediction (st (result ! k)) a b = Inr q"
    and rest: "efold (postprocess_inplace_step result) (zip [Suc k..<Suc k + length ps] ps)
                 (st(result ! k := q)) = Inr st'"
    unfolding upt by (auto simp add: p postprocess_inplace_step_eq ebind_Inr_iff simp del: upt_Suc)
  have le: "Suc k + length ps \<le> length result" using Cons.prems(2) by simp
  have ne: "result ! j \<noteq> result ! k" if "Suc k \<le> j" "j < Suc k + length ps" for j
    using that le Cons.prems(1) by (simp add: nth_eq_iff_index_eq)
  show ?case
  proof (cases "i = k")
    case True
    have "\<forall>j. Suc k \<le> j \<and> j < Suc k + length ps \<longrightarrow> result ! k \<noteq> result ! j"
      using ne by metis
    with postprocess_inplace_loop_frame [OF rest]
    have "st' (result ! k) = (st(result ! k := q)) (result ! k)" by blast
    with q True show ?thesis by (simp add: p)
  next
    case False
    with Cons.prems(4,5) have i: "Suc k \<le> i" "i < Suc k + length ps" by simp_all
    from Cons.IH [OF Cons.prems(1) le rest i]
    have "rescale_prediction ((st(result ! k := q)) (result ! i))
            (fst (ps ! (i - Suc k))) (snd (ps ! (i - Suc k))) = Inr (st' (result ! i))" .
    moreover have "(st(result ! k := q)) (result ! i) = st (result ! i)"
      using ne [OF i] by simp
    moreover have "(p # ps) ! (i - k) = ps ! (i - Suc k)"
      using i by (simp add: nth_Cons' Suc_diff_le)
    ultimately show ?thesis by simp
  qed
qed

lemma postprocess_inplace_inference:
  assumes inf: "\<not> training tr"
    and run: "postprocess_inplace tr result image_shapes original_image_sizes st = Inr st'"
  shows "(\<forall>r key. key \<noteq> ''boxes'' \<longrightarrow> st' r key = st r key)"
    and "(\<forall>r. r \<notin> set result \<longrightarrow> st' r = st r)"
    and "(\<forall>i<length result.
            \<not> (i < length image_shapes \<and> i < length original_image_sizes) \<longrightarrow>
            distinct result \<longrightarrow> st' (result ! i) = st (result ! i))"
    and "(\<forall>i<length result.
            i < length image_shapes \<and> i < length original_image_sizes \<longrightarrow>
            distinct result \<longrightarrow>
            rescale_prediction (st (result ! i)) (image_shapes ! i) (original_image_sizes ! i)
              = Inr (st' (result ! i)))"
proof -
  define ps where "ps = take (length result) (zip image_shapes original_image_sizes)"
  have len: "length ps = min (length result) (min (length image_shapes) (length original_image_sizes))"
    by (simp add: ps_def)
  have nth: "ps ! i = (image_shapes ! i, original_image_sizes ! i)" if "i < length ps" for i
    using that by (simp add: ps_def)
  have le: "0 + length ps \<le> length result" by (simp add: len)
  have "postprocess_inplace tr result image_shapes original_image_sizes st
          = efold (postprocess_inplace_step result) (zip [0..<0 + length ps] ps) st"
    unfolding ps_def
    using inf zip_upt_take [of "length result" "zip image_shapes original_image_sizes"]
    by (simp add: postprocess_inplace_def)
  with run have loop: "efold (postprocess_inplace_step result) (zip [0..<0 + length ps] ps) st
                         = Inr st'" by simp
  note fr = postprocess_inplace_loop_frame [OF loop]
  from fr show "\<forall>r key. key \<noteq> ''boxes'' \<longrightarrow> st' r key = st r key" by blast
  show "\<forall>r. r \<notin> set result \<longrightarrow> st' r = st r"
  proof (intro allI impI)
    fix r assume r: "r \<notin> set result"
    have "\<forall>i. 0 \<le> i \<and> i < 0 + length ps \<longrightarrow> r \<noteq> result ! i"
    proof (intro allI impI)
      fix i assume "0 \<le> i \<and> i < 0 + length ps"
      then have "i < length result" using le by simp
      then have "result ! i \<in> set result" by (rule nth_mem)
      with r show "r \<noteq> result ! i" by auto
    qed
    with fr show "st' r = st r" by blast
  qed
  show "\<forall>i<length result.
            \<not> (i < length image_shapes \<and> i < length original_image_sizes) \<longrightarrow>
            distinct result \<longrightarrow> st' (result ! i) = st (result ! i)"
  proof (intro allI impI)
    fix i assume i: "i < length result"
      and out: "\<not> (i < length image_shapes \<and> i < length original_image_sizes)"
      and d: "distinct result"
    from out have nl: "\<not> i < length ps" by (auto simp: len)
    have "\<forall>j. 0 \<le> j \<and> j < 0 + length ps \<longrightarrow> result ! i \<noteq> result ! j"
    proof (intro allI impI)
      fix j assume "0 \<le> j \<and> j < 0 + length ps"
      then have j: "j < length ps" by simp
      with le have "j < length result" by simp
      moreover from j nl have "i \<noteq> j" by auto
      ultimately show "result ! i \<noteq> result ! j"
        using d i by (simp add: nth_eq_iff_index_eq)
    qed
    with fr show "st' (result ! i) = st (result ! i)" by blast
  qed
  show "\<forall>i<length result.
            i < length image_shapes \<and> i < length original_image_sizes \<longrightarrow>
            distinct result \<longrightarrow>
            rescale_prediction (st (result ! i)) (image_shapes ! i) (original_image_sizes ! i)
              = Inr (st' (result ! i))"
  proof (intro allI impI)
    fix i assume i: "i < length result"
      and inn: "i < length image_shapes \<and> i < length original_image_sizes"
      and d: "distinct result"
    from i inn have l: "i < length ps" by (simp add: len)
    then have l': "i < 0 + length ps" by simp
    from postprocess_inplace_loop_distinct [OF d le loop _ l']
    have "rescale_prediction (st (result ! i)) (fst (ps ! (i - 0))) (snd (ps ! (i - 0)))
            = Inr (st' (result ! i))" by simp
    then show "rescale_prediction (st (result ! i)) (image_shapes ! i) (original_image_sizes ! i)
              = Inr (st' (result ! i))"
      by (simp add: nth [OF l])
  qed
qed

text \<open>
  On a list of distinct dicts the loop on the store does what the loop on the list of
  values does.
\<close>

lemma postprocess_inplace_refines:
  assumes d: "distinct result"
    and run: "postprocess_inplace tr result image_shapes original_image_sizes st = Inr st'"
  shows "postprocess tr (map st result) image_shapes original_image_sizes
           = Inr (map st' result)"
proof (cases "training tr")
  case True
  with run show ?thesis by (simp add: postprocess_inplace_def postprocess_def)
next
  case False
  note r = postprocess_inplace_inference [OF False run]
  have "if i < length image_shapes \<and> i < length original_image_sizes
        then \<exists>boxes boxes'. (map st result ! i) ''boxes'' = Some boxes \<and>
               resize_boxes boxes (image_shapes ! i) (original_image_sizes ! i) = Inr boxes' \<and>
               map st' result ! i = (map st result ! i)(''boxes'' \<mapsto> boxes')
        else map st' result ! i = map st result ! i" if i: "i < length (map st result)" for i
  proof (cases "i < length image_shapes \<and> i < length original_image_sizes")
    case True
    from i have i': "i < length result" by simp
    from r(4) i' True d
    have "rescale_prediction (st (result ! i)) (image_shapes ! i) (original_image_sizes ! i)
              = Inr (st' (result ! i))" by blast
    with True i' show ?thesis by (simp add: rescale_prediction_Inr_iff)
  next
    case False
    from i have i': "i < length result" by simp
    from r(3) i' False d have "st' (result ! i) = st (result ! i)" by blast
    with False i' show ?thesis by auto
  qed
  then have el: "\<forall>i<length (map st result).
        if i < length image_shapes \<and> i < length original_image_sizes
        then \<exists>boxes boxes'. (map st result ! i) ''boxes'' = Some boxes \<and>
               resize_boxes boxes (image_shapes ! i) (original_image_sizes ! i) = Inr boxes' \<and>
               map st' result ! i = (map st result ! i)(''boxes'' \<mapsto> boxes')
        else map st' result ! i = map st result ! i" by blast
  have len: "length (map st' result) = length (map st result)" by simp
  from len el show ?thesis
    unfolding postprocess_inference [OF \<open>\<not> training tr\<close>] by (rule conjI)
qed

text \<open>
  Claim C9, as amended. When \<^verbatim>\<open>postprocess\<close> returns in inference mode, every entry
  other than \<^verbatim>\<open>boxes\<close> of every dict is unchanged, and a dict that is not in the list
  is unchanged. When the dicts of the list are distinct objects, the dict at index \<open>i\<close> is
  updated using only the sizes at index \<open>i\<close>: its boxes are those it had, rescaled from
  \<open>image_shapes ! i\<close> to \<open>original_image_sizes ! i\<close>, and a dict without sizes is
  unchanged.
\<close>

theorem postprocess_changes_only_boxes:
  assumes inf: "\<not> training tr"
    and run: "postprocess_inplace tr result image_shapes original_image_sizes st = Inr st'"
  shows "(\<forall>r key. key \<noteq> ''boxes'' \<longrightarrow> st' r key = st r key) \<and>
         (\<forall>r. r \<notin> set result \<longrightarrow> st' r = st r) \<and>
         (distinct result \<longrightarrow>
            (\<forall>i<length result.
               if i < length image_shapes \<and> i < length original_image_sizes
               then \<exists>boxes boxes'. st (result ! i) ''boxes'' = Some boxes \<and>
                      resize_boxes boxes (image_shapes ! i) (original_image_sizes ! i) = Inr boxes' \<and>
                      st' (result ! i) = (st (result ! i))(''boxes'' \<mapsto> boxes')
               else st' (result ! i) = st (result ! i)))"
proof (intro conjI impI)
  note r = postprocess_inplace_inference [OF inf run]
  show "\<forall>r key. key \<noteq> ''boxes'' \<longrightarrow> st' r key = st r key" by (rule r(1))
  show "\<forall>r. r \<notin> set result \<longrightarrow> st' r = st r" by (rule r(2))
  assume d: "distinct result"
  show "\<forall>i<length result.
               if i < length image_shapes \<and> i < length original_image_sizes
               then \<exists>boxes boxes'. st (result ! i) ''boxes'' = Some boxes \<and>
                      resize_boxes boxes (image_shapes ! i) (original_image_sizes ! i) = Inr boxes' \<and>
                      st' (result ! i) = (st (result ! i))(''boxes'' \<mapsto> boxes')
               else st' (result ! i) = st (result ! i)"
  proof (intro allI impI)
    fix i assume i: "i < length result"
    show "if i < length image_shapes \<and> i < length original_image_sizes
               then \<exists>boxes boxes'. st (result ! i) ''boxes'' = Some boxes \<and>
                      resize_boxes boxes (image_shapes ! i) (original_image_sizes ! i) = Inr boxes' \<and>
                      st' (result ! i) = (st (result ! i))(''boxes'' \<mapsto> boxes')
               else st' (result ! i) = st (result ! i)"
    proof (cases "i < length image_shapes \<and> i < length original_image_sizes")
      case True
      from r(4) i True d
      have "rescale_prediction (st (result ! i)) (image_shapes ! i) (original_image_sizes ! i)
              = Inr (st' (result ! i))" by blast
      with True show ?thesis by (simp add: rescale_prediction_Inr_iff)
    next
      case False
      from r(3) i False d have "st' (result ! i) = st (result ! i)" by blast
      with False show ?thesis by auto
    qed
  qed
qed

theorem postprocess_changes_only_boxes_witness:
  "\<not> training ((init (Scalar 8) 12 [0] [1])\<lparr>training := False\<rparr>) \<and>
   distinct [0, 1 :: ref] \<and>
   (\<exists>st'. postprocess_inplace ((init (Scalar 8) 12 [0] [1])\<lparr>training := False\<rparr>) [0, 1]
              [[2, 2], [1, 1]] [[4, 6], [1, 1]]
              ((\<lambda>_. Map.empty)
                 (0 := [''boxes'' \<mapsto> \<lparr>shape = [1, 4], data = [1, 1, 5, 5]\<rparr>,
                        ''labels'' \<mapsto> \<lparr>shape = [1], data = [7]\<rparr>],
                  1 := [''boxes'' \<mapsto> \<lparr>shape = [0, 4], data = []\<rparr>])) = Inr st' \<and>
           st' 0 ''labels'' = Some \<lparr>shape = [1], data = [7]\<rparr> \<and>
           st' 0 ''boxes'' = Some \<lparr>shape = [1, 4], data = [3, 2, 15, 10]\<rparr> \<and>
           st' 2 = Map.empty)"
proof -
  let ?tr = "(init (Scalar 8) 12 [0] [1])\<lparr>training := False\<rparr>"
  let ?b = "\<lparr>shape = [1, 4], data = [1, 1, 5, 5]\<rparr>"
  let ?l = "\<lparr>shape = [1], data = [7]\<rparr>"
  define st0 :: store where "st0 = (\<lambda>_. Map.empty)
                 (0 := [''boxes'' \<mapsto> ?b, ''labels'' \<mapsto> ?l],
                  1 := [''boxes'' \<mapsto> \<lparr>shape = [0, 4], data = []\<rparr>])"
  have inf: "\<not> training ?tr" by simp
  have d: "distinct [0, 1 :: ref]" by simp
  have "map_sum id (\<lambda>_. ())
          (postprocess_inplace ?tr [0, 1] [[2, 2], [1, 1]] [[4, 6], [1, 1]] st0) = Inr ()"
    unfolding st0_def by code_simp
  then obtain st' where
    run: "postprocess_inplace ?tr [0, 1] [[2, 2], [1, 1]] [[4, 6], [1, 1]] st0 = Inr st'"
    by (cases "postprocess_inplace ?tr [0, 1] [[2, 2], [1, 1]] [[4, 6], [1, 1]] st0") simp_all
  note th = postprocess_changes_only_boxes [OF inf run]
  note c1 = th [THEN conjunct1]
  note c2 = th [THEN conjunct2, THEN conjunct1]
  note c3 = th [THEN conjunct2, THEN conjunct2, THEN mp, OF d]
  have s0: "st0 0 = [''boxes'' \<mapsto> ?b, ''labels'' \<mapsto> ?l]" by (simp add: st0_def)
  have s2: "st0 2 = Map.empty" by (simp add: st0_def)
  from c1 [THEN spec [of _ 0], THEN spec [of _ "''labels''"]]
  have 1: "st' 0 ''labels'' = Some ?l" by (simp add: s0)
  from c2 [THEN spec [of _ 2]]
  have 2: "st' 2 = Map.empty" by (simp add: s2)
  from c3 [THEN spec [of _ 0]]
  have "\<exists>boxes boxes'. st0 0 ''boxes'' = Some boxes \<and>
                      resize_boxes boxes [2, 2] [4, 6] = Inr boxes' \<and>
                      st' 0 = (st0 0)(''boxes'' \<mapsto> boxes')"
    by simp
  then obtain boxes boxes' where bx: "st0 0 ''boxes'' = Some boxes"
    and rb: "resize_boxes boxes [2, 2] [4, 6] = Inr boxes'"
    and up: "st' 0 = (st0 0)(''boxes'' \<mapsto> boxes')" by blast
  from bx have "boxes = ?b" by (simp add: s0)
  with rb example_postprocess_boxes have "boxes' = \<lparr>shape = [1, 4], data = [3, 2, 15, 10]\<rparr>"
    by simp
  with up have 3: "st' 0 ''boxes'' = Some \<lparr>shape = [1, 4], data = [3, 2, 15, 10]\<rparr>"
    by simp
  from run 1 3 2 have "\<exists>st'. postprocess_inplace ?tr [0, 1] [[2, 2], [1, 1]] [[4, 6], [1, 1]] st0
            = Inr st' \<and>
           st' 0 ''labels'' = Some \<lparr>shape = [1], data = [7]\<rparr> \<and>
           st' 0 ''boxes'' = Some \<lparr>shape = [1, 4], data = [3, 2, 15, 10]\<rparr> \<and>
           st' 2 = Map.empty" by blast
  with inf d show ?thesis unfolding st0_def by (intro conjI)
qed

text \<open>
  The claim as stated fails when the same dict occurs twice in the list: the second
  iteration rescales the boxes that the first one has already rescaled. With the dict
  at indices 0 and 1 and the sizes \<open>[2, 2]\<close> and \<open>[4, 6]\<close> at both indices, the boxes
  \<open>[1, 1, 5, 5]\<close> end as \<open>[9, 4, 45, 20]\<close>; with the sizes at index 1 as they are and
  original size \<open>[2, 2]\<close> at index 0 they end as \<open>[3, 2, 15, 10]\<close>, which is what the
  sizes at index 1 alone give. So the prediction at index 1 depends on the sizes at
  index 0.
\<close>

theorem postprocess_same_dict_twice:
  "\<not> distinct [0, 0 :: ref] \<and>
   (\<exists>st'. postprocess_inplace ((init (Scalar 8) 12 [0] [1])\<lparr>training := False\<rparr>) [0, 0]
              [[2, 2], [2, 2]] [[4, 6], [4, 6]]
              (\<lambda>_. [''boxes'' \<mapsto> \<lparr>shape = [1, 4], data = [1, 1, 5, 5]\<rparr>]) = Inr st' \<and>
           st' ([0, 0] ! 1) ''boxes'' = Some \<lparr>shape = [1, 4], data = [9, 4, 45, 20]\<rparr>) \<and>
   (\<exists>st'. postprocess_inplace ((init (Scalar 8) 12 [0] [1])\<lparr>training := False\<rparr>) [0, 0]
              [[2, 2], [2, 2]] [[2, 2], [4, 6]]
              (\<lambda>_. [''boxes'' \<mapsto> \<lparr>shape = [1, 4], data = [1, 1, 5, 5]\<rparr>]) = Inr st' \<and>
           st' ([0, 0] ! 1) ''boxes'' = Some \<lparr>shape = [1, 4], data = [3, 2, 15, 10]\<rparr>) \<and>
   resize_boxes \<lparr>shape = [1, 4], data = [1, 1, 5, 5]\<rparr> [2, 2] [4, 6]
     = Inr \<lparr>shape = [1, 4], data = [3, 2, 15, 10]\<rparr>"
proof -
  let ?tr = "(init (Scalar 8) 12 [0] [1])\<lparr>training := False\<rparr>"
  let ?st = "(\<lambda>_. [''boxes'' \<mapsto> \<lparr>shape = [1, 4], data = [1, 1, 5, 5]\<rparr>]) :: store"
  have "map_sum id (\<lambda>s. s 0 ''boxes'')
          (postprocess_inplace ?tr [0, 0] [[2, 2], [2, 2]] [[4, 6], [4, 6]] ?st)
        = Inr (Some \<lparr>shape = [1, 4], data = [9, 4, 45, 20]\<rparr>)"
    by code_simp
  then have 1: "\<exists>st'. postprocess_inplace ?tr [0, 0] [[2, 2], [2, 2]] [[4, 6], [4, 6]] ?st = Inr st' \<and>
           st' ([0, 0] ! 1) ''boxes'' = Some \<lparr>shape = [1, 4], data = [9, 4, 45, 20]\<rparr>"
    by (cases "postprocess_inplace ?tr [0, 0] [[2, 2], [2, 2]] [[4, 6], [4, 6]] ?st") simp_all
  have "map_sum id (\<lambda>s. s 0 ''boxes'')
          (postprocess_inplace ?tr [0, 0] [[2, 2], [2, 2]] [[2, 2], [4, 6]] ?st)
        = Inr (Some \<lparr>shape = [1, 4], data = [3, 2, 15, 10]\<rparr>)"
    by code_simp
  then have 2: "\<exists>st'. postprocess_inplace ?tr [0, 0] [[2, 2], [2, 2]] [[2, 2], [4, 6]] ?st = Inr st' \<and>
           st' ([0, 0] ! 1) ''boxes'' = Some \<lparr>shape = [1, 4], data = [3, 2, 15, 10]\<rparr>"
    by (cases "postprocess_inplace ?tr [0, 0] [[2, 2], [2, 2]] [[2, 2], [4, 6]] ?st") simp_all
  have 3: "\<not> distinct [0, 0 :: ref]" by simp
  from 1 2 3 example_postprocess_boxes show ?thesis by blast
qed

section \<open>Batch packing\<close>

lemma length_3_iff: "length xs = 3 \<longleftrightarrow> (\<exists>a b c. xs = [a, b, c])"
  by (auto simp: numeral_3_eq_3 length_Suc_conv)

lemma max_by_axis_inner_3:
  "efold (\<lambda>(index, item) maxes.
            if index < length maxes then Inr (maxes[index := max (maxes ! index) item])
            else Inl IndexError)
         (enumerate 0 [x, y, z]) [a, b, c]
     = Inr [max a x, max b y, max c z :: nat]"
  by simp

lemma max_by_axis_outer_3:
  "\<forall>s\<in>set rest. length s = 3 \<Longrightarrow>
   efold (\<lambda>sublist maxes.
            efold (\<lambda>(index, item) maxes.
                     if index < length maxes then Inr (maxes[index := max (maxes ! index) item])
                     else Inl IndexError)
                  (enumerate 0 sublist) maxes)
         rest [a, b, c]
     = Inr [fold (\<lambda>v m. max m v) (map (\<lambda>s. s ! 0) rest) a,
            fold (\<lambda>v m. max m v) (map (\<lambda>s. s ! 1) rest) b,
            fold (\<lambda>v m. max m v) (map (\<lambda>s. s ! 2) rest) c]"
proof (induction rest arbitrary: a b c)
  case Nil
  show ?case by simp
next
  case (Cons s rest)
  then obtain x y z where s: "s = [x, y, z]" by (auto simp: length_3_iff)
  from Cons.prems have r: "\<forall>s\<in>set rest. length s = 3" by simp
  show ?case
    unfolding s efold.simps max_by_axis_inner_3 ebind.simps
    by (simp add: Cons.IH [OF r])
qed

lemma max_by_axis_3:
  assumes ne: "the_list \<noteq> []" and len: "\<forall>s\<in>set the_list. length s = 3"
  shows "max_by_axis the_list =
           Inr [Max ((\<lambda>s. s ! 0) ` set the_list),
                Max ((\<lambda>s. s ! 1) ` set the_list),
                Max ((\<lambda>s. s ! 2) ` set the_list)]"
proof -
  from ne obtain first rest where l: "the_list = first # rest" by (cases the_list) auto
  with len obtain a b c where f: "first = [a, b, c]" by (auto simp: length_3_iff)
  from len l have r: "\<forall>s\<in>set rest. length s = 3" by simp
  have M: "Max ((\<lambda>s. s ! k) ` set the_list) = fold (\<lambda>v m. max m v) (map (\<lambda>s. s ! k) rest) (first ! k)" for k
  proof -
    have "(\<lambda>s. s ! k) ` set the_list = set ((first ! k) # map (\<lambda>s. s ! k) rest)"
      by (simp add: l)
    moreover have "(\<lambda>v m. max m v) = (max :: nat \<Rightarrow> nat \<Rightarrow> nat)"
      by (intro ext) (simp add: max.commute)
    ultimately show ?thesis by (simp only: Max.set_eq_fold)
  qed
  have "max_by_axis the_list =
          Inr [fold (\<lambda>v m. max m v) (map (\<lambda>s. s ! 0) rest) a,
               fold (\<lambda>v m. max m v) (map (\<lambda>s. s ! 1) rest) b,
               fold (\<lambda>v m. max m v) (map (\<lambda>s. s ! 2) rest) c]"
    unfolding max_by_axis_def l f
    by (simp add: py_index_def max_by_axis_outer_3 [OF r])
  then show ?thesis by (simp add: M f)
qed


lemma ceil_to_multiple:
  fixes s :: int and m :: nat
  assumes s: "0 < s"
  defines "R \<equiv> \<lceil>(of_nat m :: rat) / of_int s\<rceil> * s"
  shows "int m \<le> R" and "s dvd R" and "\<And>k. s dvd k \<Longrightarrow> int m \<le> k \<Longrightarrow> R \<le> k"
proof -
  have sp: "(0::rat) < of_int s" using s by simp
  have "(of_nat m :: rat) / of_int s \<le> of_int \<lceil>(of_nat m :: rat) / of_int s\<rceil>"
    by (rule le_of_int_ceiling)
  with pos_divide_le_eq [OF sp]
  have "(of_nat m :: rat) \<le> of_int \<lceil>(of_nat m :: rat) / of_int s\<rceil> * of_int s"
    by blast
  then have "(of_int (int m) :: rat) \<le> of_int R" by (simp add: R_def)
  then show "int m \<le> R" by (simp only: of_int_le_iff)
  show "s dvd R" by (simp add: R_def)
  fix k assume "s dvd k" and mk: "int m \<le> k"
  then obtain q where k: "k = s * q" by (auto simp: dvd_def)
  from mk have "(of_nat m :: rat) \<le> of_int s * of_int q" 
    unfolding k by (metis of_int_le_iff of_int_mult of_int_of_nat_eq)
  then have "(of_nat m :: rat) / of_int s \<le> of_int q"
    using sp by (simp add: pos_divide_le_eq mult.commute)
  then have "\<lceil>(of_nat m :: rat) / of_int s\<rceil> \<le> q" by (simp add: ceiling_le_iff)
  then have "\<lceil>(of_nat m :: rat) / of_int s\<rceil> * s \<le> q * s"
    using s by (simp add: mult_right_mono)
  then show "R \<le> k" by (simp add: R_def k mult.commute)
qed

lemma ceil_to_stride_3:
  "size_divisible \<noteq> 0 \<Longrightarrow>
   ceil_to_stride [c, h, w] 1 size_divisible
     = Inr [c, nat (\<lceil>(of_nat h :: rat) / of_int size_divisible\<rceil> * size_divisible), w] \<and>
   ceil_to_stride [c, h, w] 2 size_divisible
     = Inr [c, h, nat (\<lceil>(of_nat w :: rat) / of_int size_divisible\<rceil> * size_divisible)]"
  by (simp add: ceil_to_stride_def py_index_def Let_def)

lemma valid_index_length: "valid_index shp idx \<Longrightarrow> length idx = length shp"
  by (induction shp idx rule: valid_index.induct) simp_all

lemma broadcast_index_same:
  "valid_index shp idx \<Longrightarrow> broadcast_index shp idx = idx"
proof -
  assume v: "valid_index shp idx"
  then have "map2 (\<lambda>s i. if s = 1 then 0 else i) shp idx = idx"
    by (induction shp idx rule: valid_index.induct) auto
  with valid_index_length [OF v] show ?thesis by (simp add: broadcast_index_def)
qed

lemma broadcastable_same: "broadcastable shp shp"
  by (simp add: broadcastable_def list_all2_same)

lemma valid_index_Cons:
  "valid_index (n # ns) idx \<longleftrightarrow> (\<exists>i r. idx = i # r \<and> i < n \<and> valid_index ns r)"
  by (cases idx) simp_all

lemma copy_into_slot_3:
  assumes B: "shape batched = n # [pc, ph, pw]"
    and img: "shape img = [c, h, w]"
    and le: "c \<le> pc" "h \<le> ph" "w \<le> pw"
  shows "copy_into_slot batched k img =
           Inr (tabulate (n # [pc, ph, pw])
                  (\<lambda>idx. case idx of
                           [] \<Rightarrow> 0
                         | b # r \<Rightarrow> if b = k \<and> valid_index [c, h, w] r then elem img r
                                    else elem batched idx))"
proof -
  have m: "min c pc = c" "min h ph = h" "min w pw = w" using le by simp_all
  have bc: "broadcastable [c, h, w] [min c pc, min h ph, min w pw]"
    by (simp add: m broadcastable_same)
  have "tabulate (n # [pc, ph, pw])
                 (\<lambda>idx. case idx of
                          [] \<Rightarrow> 0
                        | b # r \<Rightarrow> if b = k \<and> valid_index [min c pc, min h ph, min w pw] r
                                   then elem img (broadcast_index (shape img) r)
                                   else elem batched idx)
           = tabulate (n # [pc, ph, pw])
                  (\<lambda>idx. case idx of
                           [] \<Rightarrow> 0
                         | b # r \<Rightarrow> if b = k \<and> valid_index [c, h, w] r then elem img r
                                    else elem batched idx)"
    by (rule tabulate_cong) (auto simp: broadcast_index_same m img split: list.splits)
  then show ?thesis
    using bc by (simp add: copy_into_slot_def B img Let_def)
qed

lemma filled_upto_0: "filled_upto images slot_shape 0 = new_full (length images # slot_shape) 0"
  unfolding filled_upto_def new_full_def
  by (rule tabulate_cong) (simp split: list.splits)

lemma filled_upto_all: "filled_upto images slot_shape (length images) = padded_batch images slot_shape"
  unfolding filled_upto_def padded_batch_def
  by (rule tabulate_cong) (auto split: list.splits)

lemma copy_into_slot_filled:
  assumes k: "k < length images"
    and img: "shape (images ! k) = [c, h, w]"
    and le: "c \<le> pc" "h \<le> ph" "w \<le> pw"
  shows "copy_into_slot (filled_upto images [pc, ph, pw] k) k (images ! k)
           = Inr (filled_upto images [pc, ph, pw] (Suc k))"
proof -
  let ?B = "filled_upto images [pc, ph, pw] k"
  have B: "shape ?B = length images # [pc, ph, pw]" by (simp add: filled_upto_def)
  have "tabulate (length images # [pc, ph, pw])
                  (\<lambda>idx. case idx of
                           [] \<Rightarrow> 0
                         | b # r \<Rightarrow> if b = k \<and> valid_index [c, h, w] r then elem (images ! k) r
                                    else elem ?B idx)
        = filled_upto images [pc, ph, pw] (Suc k)"
    unfolding filled_upto_def [of images "[pc, ph, pw]" "Suc k"]
  proof (rule tabulate_cong)
    fix idx assume v: "valid_index (length images # [pc, ph, pw]) idx"
    then obtain b r where idx: "idx = b # r" by (auto simp: valid_index_Cons)
    have "elem ?B idx = (if b < k \<and> valid_index (shape (images ! b)) r
                         then elem (images ! b) r else 0)"
      unfolding filled_upto_def idx by (simp add: elem_tabulate [OF v [unfolded idx]])
    then show "(case idx of
                           [] \<Rightarrow> 0
                         | b # r \<Rightarrow> if b = k \<and> valid_index [c, h, w] r then elem (images ! k) r
                                    else elem ?B idx)
             = (case idx of
                [] \<Rightarrow> 0
              | b # r \<Rightarrow> if b < Suc k \<and> valid_index (shape (images ! b)) r
                         then elem (images ! b) r else 0)"
      using img by (auto simp: idx less_Suc_eq)
  qed
  with copy_into_slot_3 [OF B img le, of k] show ?thesis by simp
qed

lemma batch_images_loop:
  assumes all: "\<forall>img\<in>set images. \<exists>c h w. shape img = [c, h, w] \<and> c \<le> pc \<and> h \<le> ph \<and> w \<le> pw"
  shows "k \<le> length images \<Longrightarrow>
         efold (\<lambda>(img, i) batched_imgs. copy_into_slot batched_imgs i img)
               (zip (drop k images) [k..<length images])
               (filled_upto images [pc, ph, pw] k)
           = Inr (padded_batch images [pc, ph, pw])"
proof (induction "length images - k" arbitrary: k)
  case 0
  then have "k = length images" by simp
  then show ?case by (simp add: filled_upto_all)
next
  case (Suc d)
  then have k: "k < length images" by simp
  from all k obtain c h w where img: "shape (images ! k) = [c, h, w]"
    and le: "c \<le> pc" "h \<le> ph" "w \<le> pw"
    using nth_mem by blast
  have d: "drop k images = images ! k # drop (Suc k) images"
    using k by (simp add: Cons_nth_drop_Suc)
  have u: "[k..<length images] = k # [Suc k..<length images]"
    using k by (rule upt_conv_Cons)
  have IH: "efold (\<lambda>(img, i) batched_imgs. copy_into_slot batched_imgs i img)
               (zip (drop (Suc k) images) [Suc k..<length images])
               (filled_upto images [pc, ph, pw] (Suc k))
           = Inr (padded_batch images [pc, ph, pw])"
    using Suc.hyps(1) [of "Suc k"] Suc.hyps(2) k by simp
  show ?case
    unfolding d u by (simp add: copy_into_slot_filled [OF k img le] IH)
qed


lemma ndim_3_shape:
  "ndim img = 3 \<Longrightarrow> shape img = [shape img ! 0, shape img ! 1, shape img ! 2]"
  by (auto simp: ndim_def length_3_iff)

lemma axis_le_Max:
  "img \<in> set images \<Longrightarrow> shape img ! k \<le> Max ((\<lambda>img. shape img ! k) ` set images)"
  by (rule Max_ge) auto

lemma nat_ceil_ge:
  assumes "0 < s" "a \<le> m"
  shows "a \<le> nat (\<lceil>(of_nat m :: rat) / of_int s\<rceil> * s)"
  using ceil_to_multiple(1) [OF assms(1), of m] assms(2) by linarith

lemma batch_images_padded:
  assumes ne: "images \<noteq> []" and d3: "\<forall>img\<in>set images. ndim img = 3" and s: "0 < s"
  shows "batch_images False images s =
           Inr (padded_batch images
                  [Max ((\<lambda>img. shape img ! 0) ` set images),
                   nat (\<lceil>(of_nat (Max ((\<lambda>img. shape img ! 1) ` set images)) :: rat) / of_int s\<rceil> * s),
                   nat (\<lceil>(of_nat (Max ((\<lambda>img. shape img ! 2) ` set images)) :: rat) / of_int s\<rceil> * s)])"
proof -
  let ?C = "Max ((\<lambda>img. shape img ! 0) ` set images)"
  let ?Hm = "Max ((\<lambda>img. shape img ! 1) ` set images)"
  let ?Wm = "Max ((\<lambda>img. shape img ! 2) ` set images)"
  let ?H = "nat (\<lceil>(of_nat ?Hm :: rat) / of_int s\<rceil> * s)"
  let ?W = "nat (\<lceil>(of_nat ?Wm :: rat) / of_int s\<rceil> * s)"
  have s0: "s \<noteq> 0" using s by simp
  have "max_by_axis (map shape images) =
          Inr [Max ((\<lambda>s. s ! 0) ` set (map shape images)),
               Max ((\<lambda>s. s ! 1) ` set (map shape images)),
               Max ((\<lambda>s. s ! 2) ` set (map shape images))]"
    using ne d3 by (intro max_by_axis_3) (auto simp: ndim_def)
  then have mx: "max_by_axis (map shape images) = Inr [?C, ?Hm, ?Wm]"
    by (simp add: image_image)
  have c1: "ceil_to_stride [?C, ?Hm, ?Wm] 1 s = Inr [?C, ?H, ?Wm]"
    using ceil_to_stride_3 [OF s0] by blast
  have c2: "ceil_to_stride [?C, ?H, ?Wm] 2 s = Inr [?C, ?H, ?W]"
    using ceil_to_stride_3 [OF s0] by blast
  have all: "\<forall>img\<in>set images. \<exists>c h w. shape img = [c, h, w] \<and> c \<le> ?C \<and> h \<le> ?H \<and> w \<le> ?W"
  proof
    fix img assume m: "img \<in> set images"
    with d3 have "shape img = [shape img ! 0, shape img ! 1, shape img ! 2]"
      by (intro ndim_3_shape) simp
    moreover have "shape img ! 0 \<le> ?C" by (rule axis_le_Max [OF m])
    moreover have "shape img ! 1 \<le> ?H" by (rule nat_ceil_ge [OF s axis_le_Max [OF m]])
    moreover have "shape img ! 2 \<le> ?W" by (rule nat_ceil_ge [OF s axis_le_Max [OF m]])
    ultimately show "\<exists>c h w. shape img = [c, h, w] \<and> c \<le> ?C \<and> h \<le> ?H \<and> w \<le> ?W"
      by blast
  qed
  have loop: "efold (\<lambda>(img, i) batched_imgs. copy_into_slot batched_imgs i img)
               (zip images [0..<length images])
               (new_full (length images # [?C, ?H, ?W]) 0)
           = Inr (padded_batch images [?C, ?H, ?W])"
    using batch_images_loop [OF all, of 0] by (simp add: filled_upto_0)
  show ?thesis
    by (simp only: batch_images_def if_False mx c1 c2 ebind.simps Let_def loop)
qed

lemma valid_index_3D:
  "valid_index [a, b, c] idx \<longleftrightarrow> (\<exists>i j k. idx = [i, j, k] \<and> i < a \<and> j < b \<and> k < c)"
proof (cases idx)
  case Nil then show ?thesis by simp
next
  case c1: (Cons i r1)
  show ?thesis
  proof (cases r1)
    case Nil with c1 show ?thesis by simp
  next
    case c2: (Cons j r2)
    show ?thesis
    proof (cases r2)
      case Nil with c1 c2 show ?thesis by simp
    next
      case c3: (Cons k r3)
      with c1 c2 show ?thesis by (cases r3) auto
    qed
  qed
qed

lemma F_pad_3:
  assumes img: "shape img = [c, h, w]" and le: "c \<le> pc" "h \<le> ph" "w \<le> pw"
  shows "F_pad img [0, int pw - int w, 0, int ph - int h, 0, int pc - int c]
           = Inr (tabulate [pc, ph, pw]
                    (\<lambda>idx. if valid_index (shape img) idx then elem img idx else 0))"
proof -
  let ?lr = "[(0, int pc - int c), (0, int ph - int h), (0::int, int pw - int w)]"
  have "tabulate [pc, ph, pw]
          (\<lambda>idx. let src = map2 (\<lambda>i (l, r). int i - l) idx ?lr
                 in if list_all2 (\<lambda>j s. 0 \<le> j \<and> j < int s) src (shape img)
                    then elem img (map nat src) else 0)
        = tabulate [pc, ph, pw]
            (\<lambda>idx. if valid_index (shape img) idx then elem img idx else 0)"
  proof (rule tabulate_cong)
    fix idx assume "valid_index [pc, ph, pw] idx"
    then obtain i j k where idx: "idx = [i, j, k]" by (auto simp: valid_index_3D)
    show "(let src = map2 (\<lambda>i (l, r). int i - l) idx ?lr
                 in if list_all2 (\<lambda>j s. 0 \<le> j \<and> j < int s) src (shape img)
                    then elem img (map nat src) else 0)
          = (if valid_index (shape img) idx then elem img idx else 0)"
      by (simp add: idx img Let_def)
  qed
  moreover have "map nat [int c + 0 + (int pc - int c), int h + 0 + (int ph - int h),
                          int w + 0 + (int pw - int w)] = [pc, ph, pw]"
    by simp
  ultimately show ?thesis
    using le by (simp add: F_pad_def ndim_def img Let_def)
qed


lemma emap_Inr:
  "(\<And>x. x \<in> set xs \<Longrightarrow> f x = Inr (g x)) \<Longrightarrow> emap f xs = Inr (map g xs)"
  by (induction xs) simp_all

lemma upt_3: "[0..<3] = [0, 1, 2]"
  by (simp add: upt_rec)

lemma onnx_ceil_to_stride_3:
  "size_divisible \<noteq> 0 \<Longrightarrow>
   onnx_ceil_to_stride [c, h, w] 1 size_divisible
     = Inr [c, nat (\<lceil>(of_nat h :: rat) / of_int size_divisible\<rceil> * size_divisible), w] \<and>
   onnx_ceil_to_stride [c, h, w] 2 size_divisible
     = Inr [c, h, nat (\<lceil>(of_nat w :: rat) / of_int size_divisible\<rceil> * size_divisible)]"
  by (simp add: onnx_ceil_to_stride_def py_index_def)

lemma onnx_axis_max:
  assumes d3: "\<forall>img\<in>set images. ndim img = 3" and i: "i < 3"
  shows "ebind (emap (\<lambda>img. py_index (shape img) (int i)) images)
               (\<lambda>sizes. Inr (Max (set sizes)))
           = Inr (Max ((\<lambda>img. shape img ! i) ` set images))"
proof -
  have "emap (\<lambda>img. py_index (shape img) (int i)) images
          = Inr (map (\<lambda>img. shape img ! i) images)"
    using d3 i by (intro emap_Inr py_index_nat) (simp add: ndim_def)
  then show ?thesis by simp
qed

lemma onnx_max_size:
  assumes ne: "images \<noteq> []" and d3: "\<forall>img\<in>set images. ndim img = 3"
  shows "emap (\<lambda>i. ebind (emap (\<lambda>img. py_index (shape img) (int i)) images)
                         (\<lambda>sizes. Inr (Max (set sizes))))
              [0..<3]
           = Inr [Max ((\<lambda>img. shape img ! 0) ` set images),
                  Max ((\<lambda>img. shape img ! 1) ` set images),
                  Max ((\<lambda>img. shape img ! 2) ` set images)]"
proof -
  have "emap (\<lambda>i. ebind (emap (\<lambda>img. py_index (shape img) (int i)) images)
                         (\<lambda>sizes. Inr (Max (set sizes))))
              [0..<3]
          = Inr (map (\<lambda>i. Max ((\<lambda>img. shape img ! i) ` set images)) [0..<3])"
    by (rule emap_Inr) (simp add: onnx_axis_max [OF d3])
  then show ?thesis by (simp only: upt_3 list.map)
qed

lemma onnx_pad_image:
  assumes img: "shape img = [c, h, w]" and le: "c \<le> pc" "h \<le> ph" "w \<le> pw"
  shows "(let padding = map2 (\<lambda>s1 s2. int s1 - int s2) [pc, ph, pw] (shape img)
          in ebind (py_index padding 2) (\<lambda>p2.
             ebind (py_index padding 1) (\<lambda>p1.
             ebind (py_index padding 0) (\<lambda>p0.
               F_pad img [0, p2, 0, p1, 0, p0]))))
           = Inr (tabulate [pc, ph, pw]
                    (\<lambda>idx. if valid_index (shape img) idx then elem img idx else 0))"
proof -
  have p: "map2 (\<lambda>s1 s2. int s1 - int s2) [pc, ph, pw] (shape img)
             = [int pc - int c, int ph - int h, int pw - int w]"
    by (simp add: img)
  have i: "py_index [int pc - int c, int ph - int h, int pw - int w] 2 = Inr (int pw - int w)"
    "py_index [int pc - int c, int ph - int h, int pw - int w] 1 = Inr (int ph - int h)"
    "py_index [int pc - int c, int ph - int h, int pw - int w] 0 = Inr (int pc - int c)"
    by (simp_all add: py_index_def)
  show ?thesis
    by (simp only: p Let_def i ebind.simps F_pad_3 [OF img le])
qed


lemma stack0_same_shape:
  assumes "ts \<noteq> []" and "\<forall>t\<in>set ts. shape t = slot_shape"
  shows "stack0 ts = Inr (tabulate (length ts # slot_shape)
                           (\<lambda>idx. case idx of [] \<Rightarrow> 0 | i # r \<Rightarrow> elem (ts ! i) r))"
proof -
  from assms(1) obtain t ts' where l: "ts = t # ts'" by (cases ts) auto
  with assms(2) have "list_all (\<lambda>t'. shape t' = shape t) ts" and "shape t = slot_shape"
    by (simp_all add: list_all_iff)
  then show ?thesis
    unfolding stack0_def l [symmetric] by (simp add: l)
qed

lemma stack0_padded:
  assumes ne: "images \<noteq> []"
  shows "stack0 (map (\<lambda>img. tabulate slot_shape
                            (\<lambda>idx. if valid_index (shape img) idx then elem img idx else 0))
                     images)
           = Inr (padded_batch images slot_shape)"
proof -
  let ?g = "\<lambda>img. tabulate slot_shape
                    (\<lambda>idx. if valid_index (shape img) idx then elem img idx else 0)"
  have "stack0 (map ?g images)
          = Inr (tabulate (length (map ?g images) # slot_shape)
                   (\<lambda>idx. case idx of [] \<Rightarrow> 0 | i # r \<Rightarrow> elem (map ?g images ! i) r))"
    using ne by (intro stack0_same_shape) simp_all
  also have "tabulate (length (map ?g images) # slot_shape)
                   (\<lambda>idx. case idx of [] \<Rightarrow> 0 | i # r \<Rightarrow> elem (map ?g images ! i) r)
        = padded_batch images slot_shape"
    unfolding padded_batch_def length_map
  proof (rule tabulate_cong)
    fix idx assume "valid_index (length images # slot_shape) idx"
    then obtain i r where idx: "idx = i # r" and i: "i < length images"
      and r: "valid_index slot_shape r"
      by (auto simp: valid_index_Cons)
    show "(case idx of [] \<Rightarrow> 0 | i # r \<Rightarrow> elem (map ?g images ! i) r)
          = (case idx of [] \<Rightarrow> 0
             | b # r \<Rightarrow> if valid_index (shape (images ! b)) r then elem (images ! b) r else 0)"
      using i by (simp add: idx elem_tabulate [OF r])
  qed
  finally show ?thesis .
qed

lemma onnx_batch_images_padded:
  assumes ne: "images \<noteq> []" and d3: "\<forall>img\<in>set images. ndim img = 3" and s: "0 < s"
  shows "onnx_batch_images images s =
           Inr (padded_batch images
                  [Max ((\<lambda>img. shape img ! 0) ` set images),
                   nat (\<lceil>(of_nat (Max ((\<lambda>img. shape img ! 1) ` set images)) :: rat) / of_int s\<rceil> * s),
                   nat (\<lceil>(of_nat (Max ((\<lambda>img. shape img ! 2) ` set images)) :: rat) / of_int s\<rceil> * s)])"
proof -
  let ?C = "Max ((\<lambda>img. shape img ! 0) ` set images)"
  let ?Hm = "Max ((\<lambda>img. shape img ! 1) ` set images)"
  let ?Wm = "Max ((\<lambda>img. shape img ! 2) ` set images)"
  let ?H = "nat (\<lceil>(of_nat ?Hm :: rat) / of_int s\<rceil> * s)"
  let ?W = "nat (\<lceil>(of_nat ?Wm :: rat) / of_int s\<rceil> * s)"
  let ?g = "\<lambda>img. tabulate [?C, ?H, ?W]
                    (\<lambda>idx. if valid_index (shape img) idx then elem img idx else 0)"
  have s0: "s \<noteq> 0" using s by simp
  from ne have first: "py_index images 0 = Inr (images ! 0)"
    using py_index_nat [of 0 images] by simp
  from ne d3 have nd: "ndim (images ! 0) = 3" by simp
  have mx: "emap (\<lambda>i. ebind (emap (\<lambda>img. py_index (shape img) (int i)) images)
                         (\<lambda>sizes. Inr (Max (set sizes))))
              [0..<ndim (images ! 0)] = Inr [?C, ?Hm, ?Wm]"
    unfolding nd by (rule onnx_max_size [OF ne d3])
  have c1: "onnx_ceil_to_stride [?C, ?Hm, ?Wm] 1 s = Inr [?C, ?H, ?Wm]"
    using onnx_ceil_to_stride_3 [OF s0] by blast
  have c2: "onnx_ceil_to_stride [?C, ?H, ?Wm] 2 s = Inr [?C, ?H, ?W]"
    using onnx_ceil_to_stride_3 [OF s0] by blast
  have pad: "emap (\<lambda>img.
                    let padding = map2 (\<lambda>s1 s2. int s1 - int s2) [?C, ?H, ?W] (shape img)
                    in ebind (py_index padding 2) (\<lambda>p2.
                       ebind (py_index padding 1) (\<lambda>p1.
                       ebind (py_index padding 0) (\<lambda>p0.
                         F_pad img [0, p2, 0, p1, 0, p0]))))
                 images = Inr (map ?g images)"
  proof (rule emap_Inr)
    fix img assume m: "img \<in> set images"
    with d3 have shp: "shape img = [shape img ! 0, shape img ! 1, shape img ! 2]"
      by (intro ndim_3_shape) simp
    show "(let padding = map2 (\<lambda>s1 s2. int s1 - int s2) [?C, ?H, ?W] (shape img)
                    in ebind (py_index padding 2) (\<lambda>p2.
                       ebind (py_index padding 1) (\<lambda>p1.
                       ebind (py_index padding 0) (\<lambda>p0.
                         F_pad img [0, p2, 0, p1, 0, p0])))) = Inr (?g img)"
      by (rule onnx_pad_image [OF shp axis_le_Max [OF m]
                nat_ceil_ge [OF s axis_le_Max [OF m]] nat_ceil_ge [OF s axis_le_Max [OF m]]])
  qed
  show ?thesis
    by (simp only: onnx_batch_images_def first mx c1 c2 pad ebind.simps stack0_padded [OF ne])
qed


lemma shape_padded_batch [simp]:
  "shape (padded_batch images slot_shape) = length images # slot_shape"
  by (simp add: padded_batch_def)



lemma batch_images_either_path:
  assumes ne: "images \<noteq> []" and d3: "\<forall>img\<in>set images. ndim img = 3" and s: "0 < s"
  shows "batch_images tracing images s =
           Inr (padded_batch images
                  [Max ((\<lambda>img. shape img ! 0) ` set images),
                   nat (\<lceil>(of_nat (Max ((\<lambda>img. shape img ! 1) ` set images)) :: rat) / of_int s\<rceil> * s),
                   nat (\<lceil>(of_nat (Max ((\<lambda>img. shape img ! 2) ` set images)) :: rat) / of_int s\<rceil> * s)])"
proof (cases tracing)
  case True
  then have "batch_images tracing images s = onnx_batch_images images s"
    by (simp add: batch_images_def)
  then show ?thesis by (simp only: onnx_batch_images_padded [OF ne d3 s])
next
  case False
  then show ?thesis by (simp only: batch_images_padded [OF ne d3 s])
qed







section \<open>Batch packing: the image list must not be empty\<close>

lemma emap_Inl:
  "emap f xs = Inl e \<Longrightarrow> \<exists>x\<in>set xs. f x = Inl e"
proof (induction xs)
  case Nil then show ?case by simp
next
  case (Cons x xs)
  then show ?case
    by (cases "f x"; cases "emap f xs") auto
qed

lemma F_pad_no_IndexError: "F_pad t pad \<noteq> Inl IndexError"
  by (simp add: F_pad_def Let_def)

lemma stack0_no_IndexError: "stack0 ts \<noteq> Inl IndexError"
  by (simp add: stack0_def split: list.splits)

lemma copy_into_slot_3D_cases:
  assumes "ndim img = 3" and "shape batched = n # [pc, ph, pw]"
  shows "copy_into_slot batched i img = Inl RuntimeError \<or>
         (\<exists>B'. copy_into_slot batched i img = Inr B' \<and> shape B' = shape batched)"
proof -
  from assms(1) obtain c h w where "shape img = [c, h, w]"
    by (auto simp: ndim_def length_3_iff)
  with assms(2) show ?thesis
    by (simp add: copy_into_slot_def Let_def)
qed

lemma copy_loop_no_IndexError:
  assumes "\<forall>p\<in>set xs. ndim (fst p) = 3" and "shape batched = n # [pc, ph, pw]"
  shows "efold (\<lambda>(img, i) batched_imgs. copy_into_slot batched_imgs i img) xs batched
           \<noteq> Inl IndexError"
  using assms
proof (induction xs arbitrary: batched)
  case Nil then show ?case by simp
next
  case (Cons p xs)
  obtain img i where p: "p = (img, i)" by (cases p)
  with Cons.prems have "ndim img = 3" by simp
  from copy_into_slot_3D_cases [OF this Cons.prems(2), of i]
  show ?case
  proof
    assume "copy_into_slot batched i img = Inl RuntimeError"
    then show ?thesis by (simp add: p)
  next
    assume "\<exists>B'. copy_into_slot batched i img = Inr B' \<and> shape B' = shape batched"
    then obtain B' where B': "copy_into_slot batched i img = Inr B'"
      and s: "shape B' = n # [pc, ph, pw]" using Cons.prems(2) by auto
    from Cons.IH [OF _ s] Cons.prems(1) show ?thesis by (simp add: p B')
  qed
qed

lemma set_zip_fst: "p \<in> set (zip xs ys) \<Longrightarrow> fst p \<in> set xs"
  by (cases p) (auto dest: set_zip_leftD)

lemma batch_images_no_IndexError:
  assumes ne: "images \<noteq> []" and d3: "\<forall>img\<in>set images. ndim img = 3"
  shows "batch_images tracing images s \<noteq> Inl IndexError"
proof (cases "s = 0")
  case True
  let ?C = "Max ((\<lambda>img. shape img ! 0) ` set images)"
  let ?Hm = "Max ((\<lambda>img. shape img ! 1) ` set images)"
  let ?Wm = "Max ((\<lambda>img. shape img ! 2) ` set images)"
  have mx: "max_by_axis (map shape images) = Inr [?C, ?Hm, ?Wm]"
    using max_by_axis_3 [of "map shape images"] ne d3 by (simp add: ndim_def image_image)
  from ne have first: "py_index images 0 = Inr (images ! 0)"
    using py_index_nat [of 0 images] by simp
  from ne d3 have nd: "ndim (images ! 0) = 3" by simp
  have omx: "emap (\<lambda>i. ebind (emap (\<lambda>img. py_index (shape img) (int i)) images)
                         (\<lambda>sizes. Inr (Max (set sizes))))
              [0..<ndim (images ! 0)] = Inr [?C, ?Hm, ?Wm]"
    unfolding nd by (rule onnx_max_size [OF ne d3])
  have z1: "ceil_to_stride [?C, ?Hm, ?Wm] 1 0 = Inl ZeroDivisionError"
    by (simp add: ceil_to_stride_def py_index_def)
  have z2: "onnx_ceil_to_stride [?C, ?Hm, ?Wm] 1 0 = Inl RuntimeError"
    by (simp add: onnx_ceil_to_stride_def py_index_def)
  show ?thesis
    unfolding True
    by (cases tracing)
       (simp_all only: batch_images_def onnx_batch_images_def if_True if_False mx first omx z1 z2
          ebind.simps, simp_all)
next
  case False
  let ?C = "Max ((\<lambda>img. shape img ! 0) ` set images)"
  let ?Hm = "Max ((\<lambda>img. shape img ! 1) ` set images)"
  let ?Wm = "Max ((\<lambda>img. shape img ! 2) ` set images)"
  let ?H = "nat (\<lceil>(of_nat ?Hm :: rat) / of_int s\<rceil> * s)"
  let ?W = "nat (\<lceil>(of_nat ?Wm :: rat) / of_int s\<rceil> * s)"
  show ?thesis
  proof (cases tracing)
    case nt: False
    have mx: "max_by_axis (map shape images) = Inr [?C, ?Hm, ?Wm]"
      using max_by_axis_3 [of "map shape images"] ne d3 by (simp add: ndim_def image_image)
    have c1: "ceil_to_stride [?C, ?Hm, ?Wm] 1 s = Inr [?C, ?H, ?Wm]"
      using ceil_to_stride_3 [OF False] by blast
    have c2: "ceil_to_stride [?C, ?H, ?Wm] 2 s = Inr [?C, ?H, ?W]"
      using ceil_to_stride_3 [OF False] by blast
    have "\<forall>p\<in>set (zip images [0..<length images]). ndim (fst p) = 3"
      using d3 set_zip_fst by blast
    moreover have "shape (new_full (length images # [?C, ?H, ?W]) 0) = length images # [?C, ?H, ?W]"
      by (simp add: new_full_def)
    ultimately have "efold (\<lambda>(img, i) batched_imgs. copy_into_slot batched_imgs i img)
               (zip images [0..<length images])
               (new_full (length images # [?C, ?H, ?W]) 0) \<noteq> Inl IndexError"
      by (rule copy_loop_no_IndexError)
    then show ?thesis
      using nt by (simp only: batch_images_def if_False mx c1 c2 ebind.simps Let_def simp_thms)
  next
    case tr: True
    from ne have first: "py_index images 0 = Inr (images ! 0)"
      using py_index_nat [of 0 images] by simp
    from ne d3 have nd: "ndim (images ! 0) = 3" by simp
    have omx: "emap (\<lambda>i. ebind (emap (\<lambda>img. py_index (shape img) (int i)) images)
                         (\<lambda>sizes. Inr (Max (set sizes))))
              [0..<ndim (images ! 0)] = Inr [?C, ?Hm, ?Wm]"
      unfolding nd by (rule onnx_max_size [OF ne d3])
    have c1: "onnx_ceil_to_stride [?C, ?Hm, ?Wm] 1 s = Inr [?C, ?H, ?Wm]"
      using onnx_ceil_to_stride_3 [OF False] by blast
    have c2: "onnx_ceil_to_stride [?C, ?H, ?Wm] 2 s = Inr [?C, ?H, ?W]"
      using onnx_ceil_to_stride_3 [OF False] by blast
    let ?padf = "\<lambda>img.
                    let padding = map2 (\<lambda>s1 s2. int s1 - int s2) [?C, ?H, ?W] (shape img)
                    in ebind (py_index padding 2) (\<lambda>p2.
                       ebind (py_index padding 1) (\<lambda>p1.
                       ebind (py_index padding 0) (\<lambda>p0.
                         F_pad img [0, p2, 0, p1, 0, p0])))"
    have padf: "?padf img \<noteq> Inl IndexError" if "img \<in> set images" for img
    proof -
      from that d3 obtain c h w where "shape img = [c, h, w]"
        by (auto simp: ndim_def length_3_iff)
      then show ?thesis
        by (simp add: Let_def py_index_def F_pad_no_IndexError)
    qed
    have "ebind (emap ?padf images) stack0 \<noteq> Inl IndexError"
    proof (cases "emap ?padf images")
      case (Inl e)
      with emap_Inl [OF Inl] padf show ?thesis by auto
    next
      case (Inr ts)
      then show ?thesis by (simp add: stack0_no_IndexError)
    qed
    then show ?thesis
      using tr by (simp only: batch_images_def onnx_batch_images_def if_True first omx c1 c2 ebind.simps simp_thms)
  qed
qed


lemma batch_images_empty: "batch_images tracing [] stride = Inl IndexError"
  by (simp add: batch_images_def onnx_batch_images_def max_by_axis_def)

text \<open>
  Claim C10. On an empty list \<^verbatim>\<open>batch_images\<close> raises \<^verbatim>\<open>IndexError\<close> (on either
  path). On a non-empty list the reads of the first image and of the first shape succeed;
  for a non-empty list of three-dimensional images \<^verbatim>\<open>batch_images\<close> never raises
  \<^verbatim>\<open>IndexError\<close>, whatever the stride, and for a positive stride it returns a tensor.
\<close>

theorem batch_images_requires_nonempty:
  "batch_images tracing [] stride = Inl IndexError \<and>
   (images \<noteq> [] \<longrightarrow>
      py_index images 0 = Inr (hd images) \<and>
      py_index (map shape images) 0 = Inr (shape (hd images))) \<and>
   (images \<noteq> [] \<and> (\<forall>img\<in>set images. ndim img = 3) \<longrightarrow>
      batch_images tracing images stride \<noteq> Inl IndexError) \<and>
   (images \<noteq> [] \<and> (\<forall>img\<in>set images. ndim img = 3) \<and> 0 < stride \<longrightarrow>
      (\<exists>B. batch_images tracing images stride = Inr B))"
proof (intro conjI impI)
  show "batch_images tracing [] stride = Inl IndexError" by (rule batch_images_empty)
next
  assume "images \<noteq> []"
  then show "py_index images 0 = Inr (hd images)"
    using py_index_nat [of 0 images] by (simp add: hd_conv_nth)
next
  assume "images \<noteq> []"
  then show "py_index (map shape images) 0 = Inr (shape (hd images))"
    using py_index_nat [of 0 "map shape images"] by (simp add: hd_conv_nth)
next
  assume "images \<noteq> [] \<and> (\<forall>img\<in>set images. ndim img = 3)"
  then show "batch_images tracing images stride \<noteq> Inl IndexError"
    using batch_images_no_IndexError by blast
next
  assume "images \<noteq> [] \<and> (\<forall>img\<in>set images. ndim img = 3) \<and> 0 < stride"
  then show "\<exists>B. batch_images tracing images stride = Inr B"
    using batch_images_either_path by blast
qed

theorem batch_images_requires_nonempty_witness:
  "[\<lparr>shape = [1, 2, 3], data = [1, 2, 3, 4, 5, 6]\<rparr>, \<lparr>shape = [2, 1, 1], data = [7, 8]\<rparr>] \<noteq> [] \<and>
   ndim \<lparr>shape = [1, 2, 3], data = [1, 2, 3, 4, 5, 6]\<rparr> = 3 \<and>
   ndim \<lparr>shape = [2, 1, 1], data = [7, 8]\<rparr> = 3 \<and>
   (0::int) < 2 \<and>
   py_index [\<lparr>shape = [1, 2, 3], data = [1, 2, 3, 4, 5, 6]\<rparr>, \<lparr>shape = [2, 1, 1], data = [7, 8]\<rparr>] 0
     = Inr \<lparr>shape = [1, 2, 3], data = [1, 2, 3, 4, 5, 6]\<rparr> \<and>
   batch_images False
       [\<lparr>shape = [1, 2, 3], data = [1, 2, 3, 4, 5, 6]\<rparr>, \<lparr>shape = [2, 1, 1], data = [7, 8]\<rparr>] 2
     \<noteq> Inl IndexError \<and>
   (\<exists>B. batch_images False
          [\<lparr>shape = [1, 2, 3], data = [1, 2, 3, 4, 5, 6]\<rparr>, \<lparr>shape = [2, 1, 1], data = [7, 8]\<rparr>] 2
          = Inr B)"
proof -
  let ?a = "\<lparr>shape = [1, 2, 3], data = [1, 2, 3, 4, 5, 6]\<rparr>"
  let ?b = "\<lparr>shape = [2, 1, 1], data = [7, 8]\<rparr>"
  have ne: "[?a, ?b] \<noteq> []" by simp
  have d: "ndim ?a = 3" "ndim ?b = 3" by (simp_all add: ndim_def)
  then have d3: "\<forall>img\<in>set [?a, ?b]. ndim img = 3" by simp
  have s: "(0::int) < 2" by simp
  note t = batch_images_requires_nonempty [of False 2 "[?a, ?b]"]
  from t ne have 1: "py_index [?a, ?b] 0 = Inr ?a" by simp
  from t ne d3 have 2: "batch_images False [?a, ?b] 2 \<noteq> Inl IndexError" by blast
  from t ne d3 s have 3: "\<exists>B. batch_images False [?a, ?b] 2 = Inr B" by blast
  from ne d s 1 2 3 show ?thesis by blast
qed

section \<open>Input validation in forward\<close>

lemma ebind_neq:
  "m \<noteq> Inl e \<Longrightarrow> (\<And>x. f x \<noteq> Inl e) \<Longrightarrow> ebind m f \<noteq> Inl e"
  by (cases m) simp_all

lemma efold_neq:
  "(\<And>x s. f x s \<noteq> Inl e) \<Longrightarrow> efold f xs s \<noteq> Inl e"
  by (induction xs arbitrary: s) (simp_all add: ebind_neq)

lemma efold_Inl_D:
  "efold f xs s = Inl e \<Longrightarrow> \<exists>x s'. f x s' = Inl e"
  using efold_neq [of f e xs s] by blast

text \<open>
  The two explicit checks of \<^verbatim>\<open>forward\<close> raise \<open>ValueError_not_3d\<close> and
  \<open>AssertionError\<close>. No operation that \<^verbatim>\<open>forward\<close> calls raises either of them.
\<close>

lemma py_index_no_check:
  "explicit_check e \<Longrightarrow> py_index xs i \<noteq> Inl e"
proof -
  have a: "py_index xs i \<noteq> Inl (ValueError_not_3d s)" for s
    by (simp add: py_index_def)
  have b: "py_index xs i \<noteq> Inl AssertionError"
    by (simp add: py_index_def)
  assume "explicit_check e"
  then show ?thesis using a b by (cases e) simp_all
qed

lemma dict_get_no_check:
  "explicit_check e \<Longrightarrow> dict_get d k \<noteq> Inl e"
proof -
  have a: "dict_get d k \<noteq> Inl (ValueError_not_3d s)" for s
    by (simp add: dict_get_def split: option.splits)
  have b: "dict_get d k \<noteq> Inl AssertionError"
    by (simp add: dict_get_def split: option.splits)
  assume "explicit_check e"
  then show ?thesis using a b by (cases e) simp_all
qed

lemma broadcast_dims_no_check:
  "explicit_check e \<Longrightarrow> broadcast_dims xs ys \<noteq> Inl e"
proof -
  have a: "broadcast_dims xs ys \<noteq> Inl (ValueError_not_3d s)" for s
    by (induction xs ys rule: broadcast_dims.induct) (simp_all add: ebind_neq)
  have b: "broadcast_dims xs ys \<noteq> Inl AssertionError"
    by (induction xs ys rule: broadcast_dims.induct) (simp_all add: ebind_neq)
  assume "explicit_check e"
  then show ?thesis using a b by (cases e) simp_all
qed

lemma broadcast_shapes_no_check:
  "explicit_check e \<Longrightarrow> broadcast_shapes a b \<noteq> Inl e"
proof -
  have a: "broadcast_shapes a b \<noteq> Inl (ValueError_not_3d s)" for s
    by (simp add: broadcast_shapes_def ebind_neq broadcast_dims_no_check)
  have b: "broadcast_shapes a b \<noteq> Inl AssertionError"
    by (simp add: broadcast_shapes_def ebind_neq broadcast_dims_no_check)
  assume "explicit_check e"
  then show ?thesis using a b by (cases e) simp_all
qed

lemma normalize_no_check:
  "explicit_check e \<Longrightarrow> normalize tr img \<noteq> Inl e"
proof -
  have a: "normalize tr img \<noteq> Inl (ValueError_not_3d s)" for s
    by (simp add: normalize_def tensor_sub_def tensor_div_def Let_def ebind_neq
      broadcast_shapes_no_check)
  have b: "normalize tr img \<noteq> Inl AssertionError"
    by (simp add: normalize_def tensor_sub_def tensor_div_def Let_def ebind_neq
      broadcast_shapes_no_check)
  assume "explicit_check e"
  then show ?thesis using a b by (cases e) simp_all
qed

lemma unbind1_no_check:
  "explicit_check e \<Longrightarrow> unbind1 t \<noteq> Inl e"
proof -
  have a: "unbind1 t \<noteq> Inl (ValueError_not_3d s)" for s
    by (simp add: unbind1_def split: list.splits)
  have b: "unbind1 t \<noteq> Inl AssertionError"
    by (simp add: unbind1_def split: list.splits)
  assume "explicit_check e"
  then show ?thesis using a b by (cases e) simp_all
qed

lemma stack1_no_check:
  "explicit_check e \<Longrightarrow> stack1 ts \<noteq> Inl e"
proof -
  have a: "stack1 ts \<noteq> Inl (ValueError_not_3d s)" for s
    by (simp add: stack1_def split: list.splits)
  have b: "stack1 ts \<noteq> Inl AssertionError"
    by (simp add: stack1_def split: list.splits)
  assume "explicit_check e"
  then show ?thesis using a b by (cases e) simp_all
qed

lemma stack0_no_check:
  "explicit_check e \<Longrightarrow> stack0 ts \<noteq> Inl e"
proof -
  have a: "stack0 ts \<noteq> Inl (ValueError_not_3d s)" for s
    by (simp add: stack0_def split: list.splits)
  have b: "stack0 ts \<noteq> Inl AssertionError"
    by (simp add: stack0_def split: list.splits)
  assume "explicit_check e"
  then show ?thesis using a b by (cases e) simp_all
qed

lemma F_pad_no_check:
  "explicit_check e \<Longrightarrow> F_pad t pad \<noteq> Inl e"
proof -
  have a: "F_pad t pad \<noteq> Inl (ValueError_not_3d s)" for s
    by (simp add: F_pad_def Let_def)
  have b: "F_pad t pad \<noteq> Inl AssertionError"
    by (simp add: F_pad_def Let_def)
  assume "explicit_check e"
  then show ?thesis using a b by (cases e) simp_all
qed

lemma interpolate_no_check:
  "explicit_check e \<Longrightarrow> interpolate sample img sf \<noteq> Inl e"
proof -
  have a: "interpolate sample img sf \<noteq> Inl (ValueError_not_3d s)" for s
    by (simp add: interpolate_def Let_def split: list.splits)
  have b: "interpolate sample img sf \<noteq> Inl AssertionError"
    by (simp add: interpolate_def Let_def split: list.splits)
  assume "explicit_check e"
  then show ?thesis using a b by (cases e) simp_all
qed

lemma resize_boxes_no_check:
  "explicit_check e \<Longrightarrow> resize_boxes boxes a b \<noteq> Inl e"
proof -
  have a: "resize_boxes boxes a b \<noteq> Inl (ValueError_not_3d s)" for s
    by (auto simp: resize_boxes_def Let_def stack1_no_check unbind1_no_check ebind_Inl_iff
      split: list.splits prod.splits if_splits)
  have b: "resize_boxes boxes a b \<noteq> Inl AssertionError"
    by (auto simp: resize_boxes_def Let_def stack1_no_check unbind1_no_check ebind_Inl_iff
      split: list.splits prod.splits if_splits)
  assume "explicit_check e"
  then show ?thesis using a b by (cases e) simp_all
qed

lemma py_float_no_check:
  "explicit_check e \<Longrightarrow> py_float x \<noteq> Inl e"
  by (cases e) (simp_all add: py_float_def Let_def)

lemma resize_size_no_check:
  "explicit_check e \<Longrightarrow> resize_size tr u \<noteq> Inl e"
proof -
  have a: "resize_size tr u \<noteq> Inl (ValueError_not_3d s)" for s
    by (simp add: resize_size_def torch_choice_def Let_def ebind_neq py_index_no_check
          py_float_no_check)
  have b: "resize_size tr u \<noteq> Inl AssertionError"
    by (simp add: resize_size_def torch_choice_def Let_def ebind_neq py_index_no_check
          py_float_no_check)
  assume "explicit_check e"
  then show ?thesis using a b by (cases e) simp_all
qed

lemma resize_scale_factor_no_check:
  "explicit_check e \<Longrightarrow> resize_scale_factor tr sz h w \<noteq> Inl e"
proof -
  have a: "resize_scale_factor tr sz h w \<noteq> Inl (ValueError_not_3d s)" for s
    by (simp add: resize_scale_factor_def Let_def ebind_neq py_float_no_check)
  have b: "resize_scale_factor tr sz h w \<noteq> Inl AssertionError"
    by (simp add: resize_scale_factor_def Let_def ebind_neq py_float_no_check)
  assume "explicit_check e"
  then show ?thesis using a b by (cases e) simp_all
qed

lemma resize_no_check:
  "explicit_check e \<Longrightarrow> resize tr sample u img target \<noteq> Inl e"
proof -
  have a: "resize tr sample u img target \<noteq> Inl (ValueError_not_3d s)" for s
    by (auto simp: resize_def Let_def resize_size_no_check resize_scale_factor_no_check
      interpolate_no_check dict_get_no_check resize_boxes_no_check ebind_Inl_iff
      split: option.splits if_splits)
  have b: "resize tr sample u img target \<noteq> Inl AssertionError"
    by (auto simp: resize_def Let_def resize_size_no_check resize_scale_factor_no_check
      interpolate_no_check dict_get_no_check resize_boxes_no_check ebind_Inl_iff
      split: option.splits if_splits)
  assume "explicit_check e"
  then show ?thesis using a b by (cases e) simp_all
qed

lemma max_by_axis_no_check:
  "explicit_check e \<Longrightarrow> max_by_axis the_list \<noteq> Inl e"
proof -
  have a: "max_by_axis the_list \<noteq> Inl (ValueError_not_3d s)" for s
    by (auto simp: max_by_axis_def py_index_no_check ebind_Inl_iff
      dest!: efold_Inl_D split: if_splits)
  have b: "max_by_axis the_list \<noteq> Inl AssertionError"
    by (auto simp: max_by_axis_def py_index_no_check ebind_Inl_iff
      dest!: efold_Inl_D split: if_splits)
  assume "explicit_check e"
  then show ?thesis using a b by (cases e) simp_all
qed

lemma ceil_to_stride_no_check:
  "explicit_check e \<Longrightarrow> ceil_to_stride ms k sd \<noteq> Inl e"
proof -
  have a: "ceil_to_stride ms k sd \<noteq> Inl (ValueError_not_3d s)" for s
    by (auto simp: ceil_to_stride_def Let_def py_index_no_check ebind_Inl_iff split: if_splits)
  have b: "ceil_to_stride ms k sd \<noteq> Inl AssertionError"
    by (auto simp: ceil_to_stride_def Let_def py_index_no_check ebind_Inl_iff split: if_splits)
  assume "explicit_check e"
  then show ?thesis using a b by (cases e) simp_all
qed

lemma onnx_ceil_to_stride_no_check:
  "explicit_check e \<Longrightarrow> onnx_ceil_to_stride ms k sd \<noteq> Inl e"
proof -
  have a: "onnx_ceil_to_stride ms k sd \<noteq> Inl (ValueError_not_3d s)" for s
    by (auto simp: onnx_ceil_to_stride_def py_index_no_check ebind_Inl_iff split: if_splits)
  have b: "onnx_ceil_to_stride ms k sd \<noteq> Inl AssertionError"
    by (auto simp: onnx_ceil_to_stride_def py_index_no_check ebind_Inl_iff split: if_splits)
  assume "explicit_check e"
  then show ?thesis using a b by (cases e) simp_all
qed

lemma copy_into_slot_no_check:
  "explicit_check e \<Longrightarrow> copy_into_slot B i img \<noteq> Inl e"
proof -
  have a: "copy_into_slot B i img \<noteq> Inl (ValueError_not_3d s)" for s
    by (simp add: copy_into_slot_def Let_def split: list.splits)
  have b: "copy_into_slot B i img \<noteq> Inl AssertionError"
    by (simp add: copy_into_slot_def Let_def split: list.splits)
  assume "explicit_check e"
  then show ?thesis using a b by (cases e) simp_all
qed

lemma onnx_batch_images_no_check:
  "explicit_check e \<Longrightarrow> onnx_batch_images images sd \<noteq> Inl e"
proof -
  have a: "onnx_batch_images images sd \<noteq> Inl (ValueError_not_3d s)" for s
    by (auto simp: onnx_batch_images_def Let_def py_index_no_check onnx_ceil_to_stride_no_check
      F_pad_no_check stack0_no_check ebind_Inl_iff dest!: emap_Inl)
  have b: "onnx_batch_images images sd \<noteq> Inl AssertionError"
    by (auto simp: onnx_batch_images_def Let_def py_index_no_check onnx_ceil_to_stride_no_check
      F_pad_no_check stack0_no_check ebind_Inl_iff dest!: emap_Inl)
  assume "explicit_check e"
  then show ?thesis using a b by (cases e) simp_all
qed

lemma batch_images_no_check:
  "explicit_check e \<Longrightarrow> batch_images tracing images sd \<noteq> Inl e"
proof -
  have a: "batch_images tracing images sd \<noteq> Inl (ValueError_not_3d s)" for s
    by (auto simp: batch_images_def Let_def onnx_batch_images_no_check max_by_axis_no_check
      ceil_to_stride_no_check copy_into_slot_no_check ebind_Inl_iff
      dest!: efold_Inl_D split: if_splits)
  have b: "batch_images tracing images sd \<noteq> Inl AssertionError"
    by (auto simp: batch_images_def Let_def onnx_batch_images_no_check max_by_axis_no_check
      ceil_to_stride_no_check copy_into_slot_no_check ebind_Inl_iff
      dest!: efold_Inl_D split: if_splits)
  assume "explicit_check e"
  then show ?thesis using a b by (cases e) simp_all
qed

lemma target_at_no_check:
  "explicit_check e \<Longrightarrow> target_at targets i \<noteq> Inl e"
  by (cases e)
     (auto simp: target_at_def py_index_no_check ebind_Inl_iff split: option.splits)

text \<open>The first loop of \<^verbatim>\<open>forward\<close>: which error ends it, and what it leaves.\<close>

lemma ebind_assoc: "ebind (ebind m f) g = ebind m (\<lambda>x. ebind (f x) g)"
  by (cases m) simp_all

lemma target_at_update:
  "j \<noteq> k \<Longrightarrow> target_at (Some (ts[k := t])) j = target_at (Some ts) j"
  by (simp add: target_at_def py_index_def)

lemma forward_step_eq:
  assumes "imgs ! k = images ! k" and "target_at tgts k = target_at targets k"
  shows "forward_step tr sample draw k (imgs, tgts) =
           ebind (ebind (target_at targets k)
                    (\<lambda>t. forward_image tr sample (draw k) (images ! k) t))
             (\<lambda>(img, target_index).
                Inr (imgs[k := img],
                     (case (tgts, target_index) of
                        (Some ts, Some t) \<Rightarrow> Some (ts[k := t])
                      | _ \<Rightarrow> tgts)))"
  by (simp add: forward_step_def assms ebind_assoc)

lemma forward_loop_error:
  assumes len: "length imgs = length images"
    and im: "\<forall>j. k \<le> j \<and> j < length images \<longrightarrow> imgs ! j = images ! j"
    and tg: "\<forall>j. k \<le> j \<longrightarrow> target_at tgts j = target_at targets j"
  shows "efold (forward_step tr sample draw) [k..<length images] (imgs, tgts) = Inl e \<longleftrightarrow>
         (\<exists>i. k \<le> i \<and> i < length images \<and>
              ebind (target_at targets i)
                (\<lambda>t. forward_image tr sample (draw i) (images ! i) t) = Inl e \<and>
              (\<forall>j. k \<le> j \<and> j < i \<longrightarrow>
                 (\<exists>r. ebind (target_at targets j)
                        (\<lambda>t. forward_image tr sample (draw j) (images ! j) t) = Inr r)))"
  using assms
proof (induction "length images - k" arbitrary: k imgs tgts)
  case 0
  then have "[k..<length images] = []" by simp
  moreover have "\<not> (\<exists>i. k \<le> i \<and> i < length images)" using 0 by auto
  ultimately show ?case by auto
next
  case (Suc d)
  let ?res = "\<lambda>j. ebind (target_at targets j)
                      (\<lambda>t. forward_image tr sample (draw j) (images ! j) t)"
  from Suc.hyps(2) have k: "k < length images" by simp
  have u: "[k..<length images] = k # [Suc k..<length images]"
    using k by (rule upt_conv_Cons)
  have st: "forward_step tr sample draw k (imgs, tgts) =
           ebind (?res k)
             (\<lambda>(img, target_index).
                Inr (imgs[k := img],
                     (case (tgts, target_index) of
                        (Some ts, Some t) \<Rightarrow> Some (ts[k := t])
                      | _ \<Rightarrow> tgts)))"
    using Suc.prems k by (intro forward_step_eq) simp_all
  show ?case
  proof (cases "?res k")
    case (Inl e')
    have "efold (forward_step tr sample draw) [k..<length images] (imgs, tgts) = Inl e'"
      unfolding u by (simp add: st Inl)
    moreover have "(\<exists>i. k \<le> i \<and> i < length images \<and> ?res i = Inl e \<and>
              (\<forall>j. k \<le> j \<and> j < i \<longrightarrow> (\<exists>r. ?res j = Inr r))) \<longleftrightarrow> e' = e"
    proof
      assume "\<exists>i. k \<le> i \<and> i < length images \<and> ?res i = Inl e \<and>
              (\<forall>j. k \<le> j \<and> j < i \<longrightarrow> (\<exists>r. ?res j = Inr r))"
      then obtain i where i: "k \<le> i" "?res i = Inl e"
        "\<forall>j. k \<le> j \<and> j < i \<longrightarrow> (\<exists>r. ?res j = Inr r)" by blast
      show "e' = e"
      proof (cases "i = k")
        case True with i(2) Inl show ?thesis by simp
      next
        case False
        with i(1) have "k < i" by simp
        with i(3) obtain r where "?res k = Inr r" by blast
        with Inl show ?thesis by simp
      qed
    next
      assume "e' = e"
      with Inl k show "\<exists>i. k \<le> i \<and> i < length images \<and> ?res i = Inl e \<and>
              (\<forall>j. k \<le> j \<and> j < i \<longrightarrow> (\<exists>r. ?res j = Inr r))"
        by (intro exI [of _ k]) auto
    qed
    ultimately show ?thesis by auto
  next
    case (Inr r)
    obtain img t' where r: "r = (img, t')" by (cases r)
    let ?tgts' = "case (tgts, t') of (Some ts, Some t) \<Rightarrow> Some (ts[k := t]) | _ \<Rightarrow> tgts"
    have run: "efold (forward_step tr sample draw) [k..<length images] (imgs, tgts)
            = efold (forward_step tr sample draw) [Suc k..<length images] (imgs[k := img], ?tgts')"
      unfolding u by (simp add: st Inr r)
    have d: "d = length images - Suc k" using Suc.hyps(2) by simp
    have len': "length (imgs[k := img]) = length images" using Suc.prems(1) by simp
    have im': "\<forall>j. Suc k \<le> j \<and> j < length images \<longrightarrow> imgs[k := img] ! j = images ! j"
      using Suc.prems(2) by simp
    have tg': "\<forall>j. Suc k \<le> j \<longrightarrow> target_at ?tgts' j = target_at targets j"
    proof (intro allI impI)
      fix j assume j: "Suc k \<le> j"
      then have "target_at ?tgts' j = target_at tgts j"
        by (auto simp: target_at_update split: option.splits)
      with Suc.prems(3) j show "target_at ?tgts' j = target_at targets j" by simp
    qed
    have IH: "efold (forward_step tr sample draw) [Suc k..<length images] (imgs[k := img], ?tgts') = Inl e
        \<longleftrightarrow> (\<exists>i. Suc k \<le> i \<and> i < length images \<and> ?res i = Inl e \<and>
              (\<forall>j. Suc k \<le> j \<and> j < i \<longrightarrow> (\<exists>r. ?res j = Inr r)))"
      by (rule Suc.hyps(1) [OF d len' im' tg'])
    have "(\<exists>i. Suc k \<le> i \<and> i < length images \<and> ?res i = Inl e \<and>
              (\<forall>j. Suc k \<le> j \<and> j < i \<longrightarrow> (\<exists>r. ?res j = Inr r)))
       \<longleftrightarrow> (\<exists>i. k \<le> i \<and> i < length images \<and> ?res i = Inl e \<and>
              (\<forall>j. k \<le> j \<and> j < i \<longrightarrow> (\<exists>r. ?res j = Inr r)))"
    proof
      assume "\<exists>i. Suc k \<le> i \<and> i < length images \<and> ?res i = Inl e \<and>
              (\<forall>j. Suc k \<le> j \<and> j < i \<longrightarrow> (\<exists>r. ?res j = Inr r))"
      then obtain i where i: "Suc k \<le> i" "i < length images" "?res i = Inl e"
        "\<forall>j. Suc k \<le> j \<and> j < i \<longrightarrow> (\<exists>r. ?res j = Inr r)" by blast
      have "\<exists>r. ?res j = Inr r" if "k \<le> j \<and> j < i" for j
      proof (cases "j = k")
        case True with Inr show ?thesis by simp
      next
        case False
        with that have "Suc k \<le> j \<and> j < i" by simp
        with i(4) show ?thesis by blast
      qed
      with i show "\<exists>i. k \<le> i \<and> i < length images \<and> ?res i = Inl e \<and>
              (\<forall>j. k \<le> j \<and> j < i \<longrightarrow> (\<exists>r. ?res j = Inr r))"
        by (intro exI [of _ i]) simp
    next
      assume "\<exists>i. k \<le> i \<and> i < length images \<and> ?res i = Inl e \<and>
              (\<forall>j. k \<le> j \<and> j < i \<longrightarrow> (\<exists>r. ?res j = Inr r))"
      then obtain i where i: "k \<le> i" "i < length images" "?res i = Inl e"
        "\<forall>j. k \<le> j \<and> j < i \<longrightarrow> (\<exists>r. ?res j = Inr r)" by blast
      from i(3) Inr have "i \<noteq> k" by auto
      with i(1) have "Suc k \<le> i" by simp
      with i show "\<exists>i. Suc k \<le> i \<and> i < length images \<and> ?res i = Inl e \<and>
              (\<forall>j. Suc k \<le> j \<and> j < i \<longrightarrow> (\<exists>r. ?res j = Inr r))"
        by (intro exI [of _ i]) simp
    qed
    with run IH show ?thesis by simp
  qed
qed



lemma forward_image_not_3d_iff:
  "forward_image tr sample u img t = Inl (ValueError_not_3d s) \<longleftrightarrow> ndim img \<noteq> 3 \<and> s = shape img"
  using normalize_no_check [of "ValueError_not_3d s" tr img]
        resize_no_check [of "ValueError_not_3d s" tr sample u _ t]
  by (auto simp: forward_image_def ebind_Inl_iff)

lemma forward_image_no_assertion:
  "forward_image tr sample u img t \<noteq> Inl AssertionError"
  using normalize_no_check [of AssertionError tr img]
        resize_no_check [of AssertionError tr sample u _ t]
  by (auto simp: forward_image_def ebind_Inl_iff)

lemma interpolate_Inr_3d:
  "interpolate sample img sf = Inr img' \<Longrightarrow> ndim img' = 3"
  by (auto simp: interpolate_def Let_def ndim_def split: list.splits if_splits)

lemma resize_Inr_3d:
  "resize tr sample u img target = Inr (img', t') \<Longrightarrow> ndim img' = 3"
  by (auto simp: resize_def Let_def ebind_Inr_iff dest: interpolate_Inr_3d
        split: if_splits option.splits)

lemma forward_image_Inr_3d:
  "forward_image tr sample u img t = Inr (img', t') \<Longrightarrow> ndim img' = 3"
  by (auto simp: forward_image_def ebind_Inr_iff dest: resize_Inr_3d split: if_splits)

lemma forward_loop_3d:
  assumes "efold (forward_step tr sample draw) [k..<length imgs] (imgs, tgts) = Inr (imgs', tgts')"
    and "\<forall>j<k. ndim (imgs ! j) = 3"
  shows "length imgs' = length imgs \<and> (\<forall>j<length imgs. ndim (imgs' ! j) = 3)"
  using assms
proof (induction "length imgs - k" arbitrary: k imgs tgts)
  case 0
  then have "[k..<length imgs] = []" by simp
  with 0 show ?case by auto
next
  case (Suc d)
  from Suc.hyps(2) have k: "k < length imgs" by simp
  have u: "[k..<length imgs] = k # [Suc k..<length imgs]"
    using k by (rule upt_conv_Cons)
  from Suc.prems(1) obtain st1 where
    step: "forward_step tr sample draw k (imgs, tgts) = Inr st1"
    and rest: "efold (forward_step tr sample draw) [Suc k..<length imgs] st1 = Inr (imgs', tgts')"
    unfolding u by (auto simp: ebind_Inr_iff)
  from step obtain t img t' where
    fi: "forward_image tr sample (draw k) (imgs ! k) t = Inr (img, t')"
    and st1: "st1 = (imgs[k := img],
                     (case (tgts, t') of (Some ts, Some t) \<Rightarrow> Some (ts[k := t]) | _ \<Rightarrow> tgts))"
    by (auto simp: forward_step_def ebind_Inr_iff)
  have d3: "ndim img = 3" using fi by (rule forward_image_Inr_3d)
  let ?imgs = "imgs[k := img]"
  have len: "length ?imgs = length imgs" by simp
  have d: "d = length ?imgs - Suc k" using Suc.hyps(2) by simp
  have rest': "efold (forward_step tr sample draw) [Suc k..<length ?imgs]
                 (?imgs, (case (tgts, t') of (Some ts, Some t) \<Rightarrow> Some (ts[k := t]) | _ \<Rightarrow> tgts))
               = Inr (imgs', tgts')"
    using rest st1 by simp
  have pre: "\<forall>j<Suc k. ndim (?imgs ! j) = 3"
  proof (intro allI impI)
    fix j assume j: "j < Suc k"
    show "ndim (?imgs ! j) = 3"
    proof (cases "j = k")
      case True with k d3 show ?thesis by simp
    next
      case False
      with j have "j < k" by simp
      with Suc.prems(2) False show ?thesis by simp
    qed
  qed
  from Suc.hyps(1) [OF d rest' pre] show ?case by simp
qed

lemma image_size_pair_3d:
  "ndim img = 3 \<Longrightarrow> \<exists>p. image_size_pair (drop (ndim img - 2) (shape img)) = Inr p"
  by (simp add: image_size_pair_def ndim_def)

lemma forward_after_loop_no_check:
  "explicit_check e \<Longrightarrow> \<forall>img\<in>set imgs. ndim img = 3 \<Longrightarrow>
     (let img_sizes = map (\<lambda>img. drop (ndim img - 2) (shape img)) imgs
      in ebind (batch_images tracing imgs 32) (\<lambda>batched.
         ebind (emap image_size_pair img_sizes) (\<lambda>image_sizes_list.
           Inr (\<lparr>tensors = batched, image_sizes = image_sizes_list\<rparr>, tgts))))
     \<noteq> Inl e"
proof -
  assume e: "explicit_check e" and d3: "\<forall>img\<in>set imgs. ndim img = 3"
  have "emap image_size_pair (map (\<lambda>img. drop (ndim img - 2) (shape img)) imgs) \<noteq> Inl e'" for e'
  proof
    assume "emap image_size_pair (map (\<lambda>img. drop (ndim img - 2) (shape img)) imgs) = Inl e'"
    from emap_Inl [OF this] obtain img where "img \<in> set imgs"
      and "image_size_pair (drop (ndim img - 2) (shape img)) = Inl e'" by auto
    with d3 image_size_pair_3d [of img] show False by auto
  qed
  with batch_images_no_check [OF e, of tracing imgs 32] show ?thesis
    by (auto simp: Let_def ebind_Inl_iff)
qed

lemma forward_check_error:
  assumes e: "explicit_check e"
  shows "forward tr tracing sample draw images targets = Inl e \<longleftrightarrow>
         efold (forward_step tr sample draw) [0..<length images] (images, targets) = Inl e"
proof -
  have "(case st of (imgs, tgts) \<Rightarrow>
          let img_sizes = map (\<lambda>img. drop (ndim img - 2) (shape img)) imgs
          in ebind (batch_images tracing imgs 32) (\<lambda>batched.
             ebind (emap image_size_pair img_sizes) (\<lambda>image_sizes_list.
               Inr (\<lparr>tensors = batched, image_sizes = image_sizes_list\<rparr>, tgts)))) \<noteq> Inl e"
    if run: "efold (forward_step tr sample draw) [0..<length images] (images, targets) = Inr st"
    for st
  proof -
    obtain imgs tgts where st: "st = (imgs, tgts)" by (cases st)
    from forward_loop_3d [OF run [unfolded st]]
    have len: "length imgs = length images" and d3: "\<forall>j<length images. ndim (imgs ! j) = 3"
      by simp_all
    have "\<forall>img\<in>set imgs. ndim img = 3"
      using d3 len by (auto simp: in_set_conv_nth)
    from forward_after_loop_no_check [OF e this, of tracing tgts] show ?thesis
      by (simp add: st)
  qed
  then show ?thesis
    unfolding forward_def ebind_Inl_iff by blast
qed

lemma forward_no_assertion:
  "forward tr tracing sample draw images targets \<noteq> Inl AssertionError"
proof
  assume "forward tr tracing sample draw images targets = Inl AssertionError"
  then have "efold (forward_step tr sample draw) [0..<length images] (images, targets)
               = Inl AssertionError"
    by (simp add: forward_check_error)
  then have "\<exists>i. 0 \<le> i \<and> i < length images \<and>
              ebind (target_at targets i)
                (\<lambda>t. forward_image tr sample (draw i) (images ! i) t) = Inl AssertionError \<and>
              (\<forall>j. 0 \<le> j \<and> j < i \<longrightarrow>
                 (\<exists>r. ebind (target_at targets j)
                        (\<lambda>t. forward_image tr sample (draw j) (images ! j) t) = Inr r))"
    by (subst (asm) forward_loop_error) simp_all
  then show False
    using target_at_no_check [of AssertionError targets] forward_image_no_assertion
    by (auto simp: ebind_Inl_iff)
qed

lemma forward_not_3d_iff:
  "forward tr tracing sample draw images targets = Inl (ValueError_not_3d s) \<longleftrightarrow>
      (\<exists>i<length images.
          ndim (images ! i) \<noteq> 3 \<and> s = shape (images ! i) \<and>
          (\<exists>t. target_at targets i = Inr t) \<and>
          (\<forall>j<i. \<exists>t r. target_at targets j = Inr t \<and>
                       forward_image tr sample (draw j) (images ! j) t = Inr r))"
proof -
  let ?res = "\<lambda>j. ebind (target_at targets j)
                      (\<lambda>t. forward_image tr sample (draw j) (images ! j) t)"
  have "forward tr tracing sample draw images targets = Inl (ValueError_not_3d s) \<longleftrightarrow>
        efold (forward_step tr sample draw) [0..<length images] (images, targets)
          = Inl (ValueError_not_3d s)"
    by (rule forward_check_error) simp
  also have "\<dots> \<longleftrightarrow> (\<exists>i. 0 \<le> i \<and> i < length images \<and> ?res i = Inl (ValueError_not_3d s) \<and>
              (\<forall>j. 0 \<le> j \<and> j < i \<longrightarrow> (\<exists>r. ?res j = Inr r)))"
    by (rule forward_loop_error) simp_all
  also have "\<dots> \<longleftrightarrow> (\<exists>i<length images.
          ndim (images ! i) \<noteq> 3 \<and> s = shape (images ! i) \<and>
          (\<exists>t. target_at targets i = Inr t) \<and>
          (\<forall>j<i. \<exists>t r. target_at targets j = Inr t \<and>
                       forward_image tr sample (draw j) (images ! j) t = Inr r))"
  proof -
    have a: "?res i = Inl (ValueError_not_3d s) \<longleftrightarrow>
             ndim (images ! i) \<noteq> 3 \<and> s = shape (images ! i) \<and> (\<exists>t. target_at targets i = Inr t)"
      for i
      using target_at_no_check [of "ValueError_not_3d s" targets i]
      by (auto simp: ebind_Inl_iff forward_image_not_3d_iff)
    have b: "(\<exists>r. ?res j = Inr r) \<longleftrightarrow>
             (\<exists>t r. target_at targets j = Inr t \<and>
                       forward_image tr sample (draw j) (images ! j) t = Inr r)" for j
      by (auto simp: ebind_Inr_iff)
    show ?thesis unfolding a b by auto
  qed
  finally show ?thesis .
qed

lemma example_forward_image:
  "\<exists>r. forward_image ((init (Scalar 2) 4 [0] [1])\<lparr>training := False\<rparr>) (\<lambda>_ _ _. 0) 0
      \<lparr>shape = [1, 1, 2], data = [1, 2]\<rparr> None = Inr r"
proof -
  have "map_sum id (\<lambda>_. ())
          (forward_image ((init (Scalar 2) 4 [0] [1])\<lparr>training := False\<rparr>) (\<lambda>_ _ _. 0) 0
             \<lparr>shape = [1, 1, 2], data = [1, 2]\<rparr> None) = Inr ()"
    by code_simp
  then show ?thesis
    by (cases "forward_image ((init (Scalar 2) 4 [0] [1])\<lparr>training := False\<rparr>) (\<lambda>_ _ _. 0) 0
             \<lparr>shape = [1, 1, 2], data = [1, 2]\<rparr> None") simp_all
qed

text \<open>
  Claim C7, as amended. \<^verbatim>\<open>forward\<close> raises the input-validation error exactly when
  its loop reaches an image that is not three-dimensional: some image \<open>i\<close> is not
  three-dimensional, its target (if there are targets) can be read, and every earlier image
  was three-dimensional and was normalized and resized without an error. The error carries
  the shape of that image, and whenever it is raised, some input image is not
  three-dimensional. The pipeline has one other explicit check, the assertion
  \<^verbatim>\<open>len(image_size) == 2\<close> in \<^verbatim>\<open>forward\<close>; it never fails.
\<close>

theorem forward_validation_error:
  "(forward tr tracing sample draw images targets = Inl (ValueError_not_3d s) \<longleftrightarrow>
      (\<exists>i<length images.
          ndim (images ! i) \<noteq> 3 \<and> s = shape (images ! i) \<and>
          (\<exists>t. target_at targets i = Inr t) \<and>
          (\<forall>j<i. \<exists>t r. target_at targets j = Inr t \<and>
                       forward_image tr sample (draw j) (images ! j) t = Inr r))) \<and>
   (forward tr tracing sample draw images targets = Inl (ValueError_not_3d s) \<longrightarrow>
      (\<exists>img\<in>set images. ndim img \<noteq> 3 \<and> shape img = s)) \<and>
   forward tr tracing sample draw images targets \<noteq> Inl AssertionError"
proof (intro conjI impI)
  show "forward tr tracing sample draw images targets = Inl (ValueError_not_3d s) \<longleftrightarrow>
      (\<exists>i<length images.
          ndim (images ! i) \<noteq> 3 \<and> s = shape (images ! i) \<and>
          (\<exists>t. target_at targets i = Inr t) \<and>
          (\<forall>j<i. \<exists>t r. target_at targets j = Inr t \<and>
                       forward_image tr sample (draw j) (images ! j) t = Inr r))"
    by (rule forward_not_3d_iff)
next
  assume "forward tr tracing sample draw images targets = Inl (ValueError_not_3d s)"
  then obtain i where "i < length images" "ndim (images ! i) \<noteq> 3" "s = shape (images ! i)"
    unfolding forward_not_3d_iff by blast
  then show "\<exists>img\<in>set images. ndim img \<noteq> 3 \<and> shape img = s"
    using nth_mem by (intro bexI [of _ "images ! i"]) simp_all
next
  show "forward tr tracing sample draw images targets \<noteq> Inl AssertionError"
    by (rule forward_no_assertion)
qed

theorem forward_validation_error_witness:
  "forward ((init (Scalar 2) 4 [0] [1])\<lparr>training := False\<rparr>) False (\<lambda>_ _ _. 0) (\<lambda>_. 0)
      [\<lparr>shape = [1, 1, 2], data = [1, 2]\<rparr>, \<lparr>shape = [2, 2], data = [1, 2, 3, 4]\<rparr>] None
     = Inl (ValueError_not_3d [2, 2])"
proof -
  let ?tr = "(init (Scalar 2) 4 [0] [1])\<lparr>training := False\<rparr>"
  let ?a = "\<lparr>shape = [1, 1, 2], data = [1, 2]\<rparr>"
  let ?b = "\<lparr>shape = [2, 2], data = [1, 2, 3, 4]\<rparr>"
  have 1: "(1::nat) < length [?a, ?b]" by simp
  have 2: "ndim ([?a, ?b] ! 1) \<noteq> 3" by (simp add: ndim_def)
  have 3: "[2, 2] = shape ([?a, ?b] ! 1)" by simp
  have 4: "\<exists>t. target_at None 1 = Inr t" by (simp add: target_at_def)
  have 5: "\<forall>j<1. \<exists>t r. target_at None j = Inr t \<and>
             forward_image ?tr (\<lambda>_ _ _. 0) ((\<lambda>_. 0) j) ([?a, ?b] ! j) t = Inr r"
    using example_forward_image by (simp add: target_at_def)
  from 1 2 3 4 5 have "\<exists>i<length [?a, ?b].
          ndim ([?a, ?b] ! i) \<noteq> 3 \<and> [2, 2] = shape ([?a, ?b] ! i) \<and>
          (\<exists>t. target_at None i = Inr t) \<and>
          (\<forall>j<i. \<exists>t r. target_at None j = Inr t \<and>
                       forward_image ?tr (\<lambda>_ _ _. 0) ((\<lambda>_. 0) j) ([?a, ?b] ! j) t = Inr r)"
    by blast
  with forward_validation_error
         [of ?tr False "\<lambda>_ _ _. 0" "\<lambda>_. 0" "[?a, ?b]" None "[2, 2]"]
  show ?thesis by blast
qed

text \<open>
  The claim as stated fails in two ways. The check is made image by image, between the
  processing steps: when the first image has height zero, \<^verbatim>\<open>resize\<close> raises
  \<^verbatim>\<open>ZeroDivisionError\<close> before the two-dimensional second image is looked at. And
  the dimension check is not the only explicit check: the last loop of \<^verbatim>\<open>forward\<close>
  asserts that a recorded size has two entries.
\<close>

theorem forward_other_error_first:
  "ndim \<lparr>shape = [2, 2], data = [1, 2, 3, 4]\<rparr> \<noteq> 3 \<and>
   forward ((init (Sequence [4, 8]) 12 [0, 0, 0] [1, 1, 1])\<lparr>training := False\<rparr>) False
      (\<lambda>_ _ _. 0) (\<lambda>_. 0)
      [\<lparr>shape = [3, 0, 5], data = []\<rparr>, \<lparr>shape = [2, 2], data = [1, 2, 3, 4]\<rparr>] None
     = Inl ZeroDivisionError \<and>
   image_size_pair [5] = Inl AssertionError"
proof -
  have "map_sum id (\<lambda>_. ())
          (forward ((init (Sequence [4, 8]) 12 [0, 0, 0] [1, 1, 1])\<lparr>training := False\<rparr>) False
             (\<lambda>_ _ _. 0) (\<lambda>_. 0)
             [\<lparr>shape = [3, 0, 5], data = []\<rparr>, \<lparr>shape = [2, 2], data = [1, 2, 3, 4]\<rparr>] None)
        = Inl ZeroDivisionError"
    by code_simp
  then have "forward ((init (Sequence [4, 8]) 12 [0, 0, 0] [1, 1, 1])\<lparr>training := False\<rparr>) False
             (\<lambda>_ _ _. 0) (\<lambda>_. 0)
             [\<lparr>shape = [3, 0, 5], data = []\<rparr>, \<lparr>shape = [2, 2], data = [1, 2, 3, 4]\<rparr>] None
        = Inl ZeroDivisionError"
    by (cases "forward ((init (Sequence [4, 8]) 12 [0, 0, 0] [1, 1, 1])\<lparr>training := False\<rparr>) False
             (\<lambda>_ _ _. 0) (\<lambda>_. 0)
             [\<lparr>shape = [3, 0, 5], data = []\<rparr>, \<lparr>shape = [2, 2], data = [1, 2, 3, 4]\<rparr>] None")
       simp_all
  then show ?thesis by (simp add: ndim_def image_size_pair_def)
qed

end
